theory Spec2Isabelle
  imports Main "HOL-Library.Sublist"
begin

section \<open>Data model of the Elm test runner (runner.ts)\<close>

text \<open>
  Exceptions of the JavaScript runtime that the runner can raise: reading a property of
  \<^verbatim>\<open>undefined\<close> (TypeError) and unbounded recursion (RangeError).
\<close>

datatype error = TypeError | RangeError

text \<open>
  One entry of \<^verbatim>\<open>Result.failures\<close>, after the wire format: an optional message and an
  optional comparison (expected, actual, comparison kind). The runner never looks inside.
\<close>

datatype failure =
  Failure (failure_message: "string option") (failure_reason: "(string \<times> string \<times> string) option")

text \<open>The \<^verbatim>\<open>Result\<close> record, with the fields the runner reads and writes.\<close>

record result =
  event :: string
  status :: string
  labels :: "string list"
  messages :: "string list"
  failures :: "failure list"

text \<open>
  \<^verbatim>\<open>TestSuiteInfo | TestInfo\<close>: the constructor is the \<^verbatim>\<open>type\<close> tag. The root suite has
  neither description nor file, so both are optional.
\<close>

datatype node =
  Suite (node_id: string) (label: string) (description: "string option")
        (children: "node list") (node_file: "string option")
| Test (node_id: string) (label: string) (description: "string option")
       (node_file: "string option") (skipped: bool)

text \<open>The mutable fields of \<^verbatim>\<open>ElmTestRunner\<close>; \<open>folder\<close> is \<^verbatim>\<open>folder.uri.fsPath\<close>.\<close>

record runner =
  folder :: string
  loadedSuite :: "node option"
  resultById :: "string \<rightharpoonup> result"
  loadingSuite :: "node option"
  pendingMessages :: "string list"

text \<open>The state of a newly constructed runner.\<close>

definition new_runner :: "string \<Rightarrow> runner" where
  "new_runner fsPath =
     \<lparr>folder = fsPath, loadedSuite = None, resultById = Map.empty,
      loadingSuite = None, pendingMessages = []\<rparr>"

text \<open>The object literal that both run entry points assign to \<^verbatim>\<open>loadingSuite\<close>.\<close>

definition root_suite :: node where
  "root_suite = Suite ''root'' ''root'' None [] None"

section \<open>Building the tree\<close>

text \<open>
  \<^verbatim>\<open>String.prototype.replace\<close> with a string pattern: only the first occurrence of the
  pattern is replaced.
\<close>

fun str_replace :: "char \<Rightarrow> char \<Rightarrow> string \<Rightarrow> string" where
  "str_replace p c [] = []"
| "str_replace p c (x # xs) = (if x = p then c # xs else x # str_replace p c xs)"

text \<open>
  \<^verbatim>\<open>getFilePath\<close>: \<^verbatim>\<open>result.labels[0]\<close> is \<^verbatim>\<open>undefined\<close> for an empty label list, and
  calling \<^verbatim>\<open>replace\<close> on it raises TypeError.
\<close>

definition getFilePath :: "string \<Rightarrow> result \<Rightarrow> error + string" where
  "getFilePath fsPath r =
     (case labels r of
        [] \<Rightarrow> Inl TypeError
      | module # _ \<Rightarrow>
          Inr (fsPath @ ''/tests/'' @ str_replace (CHR ''.'') (CHR ''/'') module @ ''.elm''))"

text \<open>Replace the first element that satisfies \<open>P\<close>: the in-place update of \<^verbatim>\<open>found\<close>.\<close>

fun update_found :: "('a \<Rightarrow> bool) \<Rightarrow> 'a \<Rightarrow> 'a list \<Rightarrow> 'a list" where
  "update_found P v [] = []"
| "update_found P v (x # xs) = (if P x then v # xs else x # update_found P v xs)"

text \<open>
  \<^verbatim>\<open>addResult_\<close> (here \<open>addResult'\<close>) mutates the suite it is given; the model
  returns the updated suite with the id. A \<^verbatim>\<open>Test\<close> in the place of the suite has no
  \<^verbatim>\<open>children\<close>, so \<^verbatim>\<open>push\<close> and \<^verbatim>\<open>find\<close> raise TypeError. With no label left,
  \<^verbatim>\<open>shift\<close> yields \<^verbatim>\<open>undefined\<close>, no child is found, and the new suite asks for
  \<^verbatim>\<open>getFilePath\<close>: that raises TypeError when the result has no label either; otherwise
  the call repeats with the same empty list without end, which the runtime stops with
  RangeError.
\<close>

fun addResult' :: "string \<Rightarrow> node \<Rightarrow> string list \<Rightarrow> result \<Rightarrow> error + (node \<times> string)" where
  "addResult' fsPath (Test i l d f s) ls r = Inl TypeError"
| "addResult' fsPath (Suite i l d cs f) [] r =
     (case getFilePath fsPath r of Inl e \<Rightarrow> Inl e | Inr p \<Rightarrow> Inl RangeError)"
| "addResult' fsPath (Suite i l d cs f) [x] r =
     (case getFilePath fsPath r of
        Inl e \<Rightarrow> Inl e
      | Inr p \<Rightarrow>
          (let testInfo = Test (i @ ''/'' @ x) x (Some x) (Some p) (status r = ''todo'')
           in Inr (Suite i l d (cs @ [testInfo]) f, node_id testInfo)))"
| "addResult' fsPath (Suite i l d cs f) (x # y # ys) r =
     (case List.find (\<lambda>child. label child = x) cs of
        Some (Suite i' l' d' cs' f') \<Rightarrow>
          (case addResult' fsPath (Suite i' l' d' cs' f') (y # ys) r of
             Inl e \<Rightarrow> Inl e
           | Inr (found, tid) \<Rightarrow>
               Inr (Suite i l d (update_found (\<lambda>child. label child = x) found cs) f, tid))
      | _ \<Rightarrow>
          (case getFilePath fsPath r of
             Inl e \<Rightarrow> Inl e
           | Inr p \<Rightarrow>
               (case addResult' fsPath (Suite (i @ ''/'' @ x) x (Some x) [] (Some p)) (y # ys) r of
                  Inl e \<Rightarrow> Inl e
                | Inr (newSuite, tid) \<Rightarrow> Inr (Suite i l d (cs @ [newSuite]) f, tid))))"

definition addResult :: "string \<Rightarrow> node \<Rightarrow> result \<Rightarrow> error + (node \<times> string)" where
  "addResult fsPath suite r = addResult' fsPath suite (labels r) r"

section \<open>Dispatching the parsed lines\<close>

text \<open>
  \<^verbatim>\<open>parseTestResult\<close> is imported from another module. The runner only relies on its
  result being a string or a \<^verbatim>\<open>Result\<close>, which \<^verbatim>\<open>accept\<close> allows to be null; the parser
  is a parameter \<open>ptr\<close> of that type.
\<close>

type_synonym parsed = "string + result option"

text \<open>The empty string is falsy: \<^verbatim>\<open>pushMessage\<close> returns before the push.\<close>

definition pushMessage :: "string \<Rightarrow> runner \<Rightarrow> runner" where
  "pushMessage message st =
     (if message = [] then st
      else st\<lparr>pendingMessages := pendingMessages st @ [message]\<rparr>)"

definition popMessages :: "runner \<Rightarrow> string list \<times> runner" where
  "popMessages st = (pendingMessages st, st\<lparr>pendingMessages := []\<rparr>)"

text \<open>
  \<^verbatim>\<open>accept\<close> returns the state it leaves behind and the exception it raised, if any.
  The messages are popped before \<^verbatim>\<open>addResult\<close> runs, so the buffer is empty also when
  \<^verbatim>\<open>addResult\<close> raises; \<^verbatim>\<open>loadingSuite!\<close> on an unset field raises TypeError at
  \<^verbatim>\<open>suite.children\<close>.
\<close>

definition accept :: "result option \<Rightarrow> runner \<Rightarrow> runner \<times> error option" where
  "accept res st =
     (case res of
        None \<Rightarrow> (st, None)
      | Some r \<Rightarrow>
          if event r = ''testCompleted'' then
            (let (popped, st1) = popMessages st;
                 r' = r\<lparr>messages := popped\<rparr>
             in case loadingSuite st1 of
                  None \<Rightarrow> (st1, Some TypeError)
                | Some suite \<Rightarrow>
                    (case addResult (folder st1) suite r' of
                       Inl e \<Rightarrow> (st1, Some e)
                     | Inr (suite', tid) \<Rightarrow>
                         (st1\<lparr>loadingSuite := Some suite',
                              resultById := (resultById st1)(tid \<mapsto> r')\<rparr>, None)))
          else (st, None))"

text \<open>The body of the \<^verbatim>\<open>forEach\<close> in \<^verbatim>\<open>parse\<close>, for one parsed line.\<close>

definition dispatch :: "parsed \<Rightarrow> runner \<Rightarrow> runner \<times> error option" where
  "dispatch p st =
     (case p of
        Inl message \<Rightarrow> (pushMessage message st, None)
      | Inr res \<Rightarrow> accept res st)"

text \<open>The \<^verbatim>\<open>forEach\<close> itself: an exception ends it, the later elements are not visited.\<close>

fun dispatch_all :: "parsed list \<Rightarrow> runner \<Rightarrow> runner \<times> error option" where
  "dispatch_all [] st = (st, None)"
| "dispatch_all (p # ps) st =
     (case dispatch p st of
        (st', Some e) \<Rightarrow> (st', Some e)
      | (st', None) \<Rightarrow> dispatch_all ps st')"

definition parse :: "(string \<Rightarrow> parsed) \<Rightarrow> string list \<Rightarrow> runner \<Rightarrow> runner \<times> error option" where
  "parse ptr lines st = dispatch_all (map ptr lines) st"

text \<open>\<^verbatim>\<open>split('\\n')\<close>: the pieces between the newlines, at least one piece.\<close>

fun split_lines :: "string \<Rightarrow> string list" where
  "split_lines [] = [[]]"
| "split_lines (c # cs) =
     (if c = CHR 0x0A then [] # split_lines cs
      else (case split_lines cs of [] \<Rightarrow> [[c]] | l # ls \<Rightarrow> (c # l) # ls))"

text \<open>The handler of a chunk of standard output: \<^verbatim>\<open>parse([line])\<close> for each line.\<close>

fun parse_each :: "(string \<Rightarrow> parsed) \<Rightarrow> string list \<Rightarrow> runner \<Rightarrow> runner \<times> error option" where
  "parse_each ptr [] st = (st, None)"
| "parse_each ptr (line # lines) st =
     (case parse ptr [line] st of
        (st', Some e) \<Rightarrow> (st', Some e)
      | (st', None) \<Rightarrow> parse_each ptr lines st')"

definition on_stdout_data :: "(string \<Rightarrow> parsed) \<Rightarrow> string \<Rightarrow> runner \<Rightarrow> runner \<times> error option" where
  "on_stdout_data ptr data st = parse_each ptr (split_lines data) st"

section \<open>Starting and finishing a run\<close>

text \<open>
  The assignments of \<^verbatim>\<open>runAllTests\<close> and \<^verbatim>\<open>runSomeTests\<close> before \<^verbatim>\<open>runElmTests\<close> is
  called. Neither touches \<^verbatim>\<open>resultById\<close>; only \<^verbatim>\<open>runAllTests\<close> resets \<^verbatim>\<open>loadedSuite\<close>.
\<close>

definition runAllTests :: "runner \<Rightarrow> runner" where
  "runAllTests st =
     st\<lparr>loadedSuite := None, loadingSuite := Some root_suite, pendingMessages := []\<rparr>"

definition runSomeTests :: "string list \<Rightarrow> runner \<Rightarrow> runner" where
  "runSomeTests files st = st\<lparr>loadingSuite := Some root_suite, pendingMessages := []\<rparr>"

text \<open>
  What the listener registered with \<^verbatim>\<open>onDidEndTaskProcess\<close> does: nothing for the end
  of another task, the report-mode invocation, or the rejection of the run's promise.
  \<^verbatim>\<open>exitCode\<close> is a number or \<^verbatim>\<open>undefined\<close>.
\<close>

datatype task_end = Ignored | RunElmTestWithReport | Reject string

definition task_name :: string where
  "task_name = ''Run Elm Test''"

definition reject_reason :: string where
  "reject_reason =
     ''elm-test failed.'' @ [CHR 0x0A] @
     ''Check for Elm errors,'' @ [CHR 0x0A] @
     ''find details in the '' @ [CHR 0x22] @ ''Task - '' @ task_name @ [CHR 0x22] @ '' terminal.''"

definition onDidEndTaskProcess :: "bool \<Rightarrow> int option \<Rightarrow> task_end" where
  "onDidEndTaskProcess same_task exitCode =
     (if same_task then
        (if exitCode \<noteq> Some 1 then RunElmTestWithReport else Reject reject_reason)
      else Ignored)"

text \<open>The \<^verbatim>\<open>close\<close> handler of the report-mode process, with the value it resolves.\<close>

datatype load_event = TestLoadFinishedEvent (suite: "node option")

definition on_close :: "runner \<Rightarrow> runner \<times> load_event" where
  "on_close st =
     (let st' = (if loadedSuite st = None then st\<lparr>loadedSuite := loadingSuite st\<rparr> else st)
      in (st', TestLoadFinishedEvent (loadedSuite st')))"

text \<open>
  The life of a runner as its callers and the report-mode process drive it: a run is
  started, chunks of standard output arrive, the process closes. Each chunk is handled by
  a call of its own, so the state a handler leaves behind is the state the next call sees.
\<close>

datatype op = RunAll | RunSome "string list" | StdoutData string | Close

fun step :: "(string \<Rightarrow> parsed) \<Rightarrow> op \<Rightarrow> runner \<Rightarrow> runner" where
  "step ptr RunAll st = runAllTests st"
| "step ptr (RunSome files) st = runSomeTests files st"
| "step ptr (StdoutData d) st = fst (on_stdout_data ptr d st)"
| "step ptr Close st = fst (on_close st)"

fun run_ops :: "(string \<Rightarrow> parsed) \<Rightarrow> op list \<Rightarrow> runner \<Rightarrow> runner" where
  "run_ops ptr [] st = st"
| "run_ops ptr (x # xs) st = run_ops ptr xs (step ptr x st)"

section \<open>Replaying the tree as events\<close>



section \<open>Example inputs\<close>

text \<open>
  Results as the reporter sends them, and a parser that knows three lines and returns every
  other line as it is.
\<close>

definition r_pass :: result where
  "r_pass = \<lparr>event = ''testCompleted'', status = ''pass'', labels = [''Mod'', ''case1''],
             messages = [], failures = []\<rparr>"

definition r_todo :: result where
  "r_todo = \<lparr>event = ''testCompleted'', status = ''todo'', labels = [''Mod'', ''case2''],
             messages = [], failures = []\<rparr>"

definition r_start :: result where
  "r_start = \<lparr>event = ''runStart'', status = [], labels = [], messages = [], failures = []\<rparr>"

definition example_parser :: "string \<Rightarrow> parsed" where
  "example_parser line =
     (if line = ''T'' then Inr (Some r_pass)
      else if line = ''U'' then Inr (Some r_todo)
      else if line = ''S'' then Inr (Some r_start)
      else Inl line)"

section \<open>The claims' own notions\<close>




text \<open>The invariant behind the handling of empty diagnostic lines.\<close>

definition messages_nonempty :: "runner \<Rightarrow> bool" where
  "messages_nonempty st \<longleftrightarrow>
     [] \<notin> set (pendingMessages st) \<and>
     (\<forall>k r. resultById st k = Some r \<longrightarrow> [] \<notin> set (messages r))"

text \<open>A parsed line that is the result of a completed test.\<close>

definition completed :: "parsed \<Rightarrow> bool" where
  "completed p = (case p of Inr (Some r) \<Rightarrow> event r = ''testCompleted'' | _ \<Rightarrow> False)"

text \<open>The diagnostic strings that a sequence of parsed lines buffers, in arrival order.\<close>

definition diagnostics :: "parsed list \<Rightarrow> string list" where
  "diagnostics ps =
     concat (map (\<lambda>p. case p of Inl m \<Rightarrow> if m = [] then [] else [m] | Inr _ \<Rightarrow> []) ps)"

section \<open>Paths in the tree\<close>

text \<open>
  The nodes that the label path \<open>p\<close> leads to from a node: at each label, every child with
  that label is followed. A tree can hold several nodes at one path.
\<close>

fun nodes_at :: "node \<Rightarrow> string list \<Rightarrow> node list" where
  "nodes_at n [] = [n]"
| "nodes_at (Test i l d f s) (x # xs) = []"
| "nodes_at (Suite i l d cs f) (x # xs) =
     concat (map (\<lambda>c. nodes_at c xs) (filter (\<lambda>c. label c = x) cs))"

text \<open>The labels of a path joined to the id of its start with \<open>/\<close>.\<close>

definition path_id :: "string \<Rightarrow> string list \<Rightarrow> string" where
  "path_id start p = start @ concat (map (\<lambda>l. ''/'' @ l) p)"

text \<open>Every child's id is the id of its parent, a \<open>/\<close> and the child's label.\<close>

fun ids_ok :: "node \<Rightarrow> bool" where
  "ids_ok (Test i l d f s) = True"
| "ids_ok (Suite i l d cs f) = (\<forall>c \<in> set cs. node_id c = i @ ''/'' @ label c \<and> ids_ok c)"

text \<open>All nodes of a tree, the root first.\<close>

fun subnodes :: "node \<Rightarrow> node list" where
  "subnodes (Test i l d f s) = [Test i l d f s]"
| "subnodes (Suite i l d cs f) = Suite i l d cs f # concat (map subnodes cs)"

text \<open>Both trees of a runner, where they exist, have the root id and well-formed ids.\<close>

definition trees_ok :: "runner \<Rightarrow> bool" where
  "trees_ok st \<longleftrightarrow>
     (\<forall>t. Some t \<in> {loadingSuite st, loadedSuite st} \<longrightarrow> node_id t = ''root'' \<and> ids_ok t)"

text \<open>The suites among the nodes at a path.\<close>

definition suites_at :: "node \<Rightarrow> string list \<Rightarrow> node list" where
  "suites_at n p = filter is_Suite (nodes_at n p)"

text \<open>
  Following the path the way \<^verbatim>\<open>addResult_\<close> does, through the first child that carries the
  label, arrives at a \<^verbatim>\<open>Test\<close>: the descent does not enter it and makes a new suite.
\<close>

fun shadowed :: "node \<Rightarrow> string list \<Rightarrow> bool" where
  "shadowed n [] = False"
| "shadowed (Test i l d f s) (x # xs) = False"
| "shadowed (Suite i l d cs f) (x # xs) =
     (case List.find (\<lambda>child. label child = x) cs of
        None \<Rightarrow> False
      | Some (Test i' l' d' f' s') \<Rightarrow> True
      | Some (Suite i' l' d' cs' f') \<Rightarrow> shadowed (Suite i' l' d' cs' f') xs)"

text \<open>The same descent finds a suite for every label of the path.\<close>

fun reusable :: "node \<Rightarrow> string list \<Rightarrow> bool" where
  "reusable n [] = True"
| "reusable (Test i l d f s) (x # xs) = False"
| "reusable (Suite i l d cs f) (x # xs) =
     (case List.find (\<lambda>child. label child = x) cs of
        Some (Suite i' l' d' cs' f') \<Rightarrow> reusable (Suite i' l' d' cs' f') xs
      | _ \<Rightarrow> False)"

text \<open>What the descent looks at in a child: its label and whether it is a suite.\<close>

definition key :: "node \<Rightarrow> string \<times> bool" where
  "key c = (label c, is_Suite c)"

text \<open>
  Among the children with one label, a suite that comes first is the only suite: the descent
  reuses it for every later result, so no second suite with that label is made.
\<close>

definition first_suite_alone :: "(string \<times> bool) list \<Rightarrow> bool" where
  "first_suite_alone ks \<longleftrightarrow>
     (\<forall>x. List.find (\<lambda>k. fst k = x) ks = Some (x, True) \<longrightarrow>
          length (filter (\<lambda>k. k = (x, True)) ks) = 1)"

text \<open>The same at every suite of a tree.\<close>

fun suites_unique :: "node \<Rightarrow> bool" where
  "suites_unique (Test i l d f s) = True"
| "suites_unique (Suite i l d cs f) =
     (first_suite_alone (map key cs) \<and> (\<forall>c \<in> set cs. suites_unique c))"

text \<open>The loading tree of a runner, where it exists, is a suite with this property.\<close>

definition loading_unique :: "runner \<Rightarrow> bool" where
  "loading_unique st \<longleftrightarrow>
     (\<forall>t. loadingSuite st = Some t \<longrightarrow> is_Suite t \<and> suites_unique t)"

text \<open>Results for a test \<open>a\<close> of module \<open>M\<close> and for two tests in a group of the same name.\<close>

definition r_leaf :: result where
  "r_leaf = \<lparr>event = ''testCompleted'', status = ''pass'', labels = [''M'', ''a''],
             messages = [], failures = []\<rparr>"

definition r_deep1 :: result where
  "r_deep1 = \<lparr>event = ''testCompleted'', status = ''pass'', labels = [''M'', ''a'', ''b''],
             messages = [], failures = []\<rparr>"

definition r_deep2 :: result where
  "r_deep2 = \<lparr>event = ''testCompleted'', status = ''pass'', labels = [''M'', ''a'', ''c''],
             messages = [], failures = []\<rparr>"

section \<open>Frame lemmas of the dispatch\<close>

lemma accept_loadedSuite: "loadedSuite (fst (accept res st)) = loadedSuite st"
  by (auto simp: accept_def popMessages_def Let_def split: option.splits sum.splits prod.splits)

lemma dispatch_loadedSuite: "loadedSuite (fst (dispatch p st)) = loadedSuite st"
  by (auto simp: dispatch_def pushMessage_def accept_loadedSuite split: sum.splits)

lemma dispatch_all_loadedSuite: "loadedSuite (fst (dispatch_all ps st)) = loadedSuite st"
proof (induction ps arbitrary: st)
  case Nil show ?case by simp
next
  case (Cons p ps)
  show ?case
  proof (cases "dispatch p st")
    case (Pair st' e)
    with Cons[of st'] dispatch_loadedSuite[of p st] show ?thesis
      by (cases e) auto
  qed
qed

lemma parse_each_loadedSuite: "loadedSuite (fst (parse_each ptr ls st)) = loadedSuite st"
proof (induction ls arbitrary: st)
  case Nil show ?case by simp
next
  case (Cons l ls)
  show ?case
  proof (cases "parse ptr [l] st")
    case (Pair st' e)
    moreover have "loadedSuite (fst (parse ptr [l] st)) = loadedSuite st"
      unfolding parse_def by (rule dispatch_all_loadedSuite)
    ultimately show ?thesis using Cons[of st'] by (cases e) auto
  qed
qed

lemma stdout_stream_loadedSuite:
  "loadedSuite (run_ops ptr (map StdoutData chunks) st) = loadedSuite st"
  by (induction chunks arbitrary: st) (simp_all add: on_stdout_data_def parse_each_loadedSuite)

lemma accept_loadingSuite:
  "loadingSuite st \<noteq> None \<Longrightarrow> loadingSuite (fst (accept res st)) \<noteq> None"
  by (auto simp: accept_def popMessages_def Let_def split: option.splits sum.splits prod.splits)

lemma dispatch_loadingSuite:
  "loadingSuite st \<noteq> None \<Longrightarrow> loadingSuite (fst (dispatch p st)) \<noteq> None"
  by (cases p) (simp_all add: dispatch_def pushMessage_def accept_loadingSuite)

lemma dispatch_all_loadingSuite:
  "loadingSuite st \<noteq> None \<Longrightarrow> loadingSuite (fst (dispatch_all ps st)) \<noteq> None"
proof (induction ps arbitrary: st)
  case Nil then show ?case by simp
next
  case (Cons p ps)
  show ?case
  proof (cases "dispatch p st")
    case (Pair st' e)
    with Cons.IH[of st'] dispatch_loadingSuite[OF Cons.prems, of p] show ?thesis
      by (cases e) auto
  qed
qed

lemma parse_each_loadingSuite:
  "loadingSuite st \<noteq> None \<Longrightarrow> loadingSuite (fst (parse_each ptr ls st)) \<noteq> None"
proof (induction ls arbitrary: st)
  case Nil then show ?case by simp
next
  case (Cons l ls)
  show ?case
  proof (cases "parse ptr [l] st")
    case (Pair st' e)
    moreover have "loadingSuite (fst (parse ptr [l] st)) \<noteq> None"
      unfolding parse_def by (rule dispatch_all_loadingSuite[OF Cons.prems])
    ultimately show ?thesis using Cons.IH[of st'] by (cases e) auto
  qed
qed

lemma stdout_stream_loadingSuite:
  "loadingSuite st \<noteq> None \<Longrightarrow>
   loadingSuite (run_ops ptr (map StdoutData chunks) st) \<noteq> None"
proof (induction chunks arbitrary: st)
  case Nil then show ?case by simp
next
  case (Cons d ds)
  have "loadingSuite (fst (parse_each ptr (split_lines d) st)) \<noteq> None"
    by (rule parse_each_loadingSuite[OF Cons.prems])
  from Cons.IH[OF this] show ?case by (simp add: on_stdout_data_def)
qed

text \<open>An entry of the index changes only by being overwritten with a completed test.\<close>

lemma accept_resultById:
  "resultById (fst (accept res st)) k = resultById st k
   \<or> (\<exists>r ms. res = Some r \<and> event r = ''testCompleted''
        \<and> resultById (fst (accept res st)) k = Some (r\<lparr>messages := ms\<rparr>))"
  by (auto simp: accept_def popMessages_def Let_def
      split: option.splits sum.splits prod.splits)

lemma dispatch_resultById:
  "resultById (fst (dispatch p st)) k = resultById st k
   \<or> (\<exists>r ms. p = Inr (Some r) \<and> event r = ''testCompleted''
        \<and> resultById (fst (dispatch p st)) k = Some (r\<lparr>messages := ms\<rparr>))"
proof (cases p)
  case (Inl m)
  then show ?thesis by (simp add: dispatch_def pushMessage_def)
next
  case (Inr res)
  then show ?thesis using accept_resultById[of res st k] by (simp add: dispatch_def)
qed

lemma dispatch_all_resultById:
  "resultById (fst (dispatch_all ps st)) k = resultById st k
   \<or> (\<exists>r ms. Inr (Some r) \<in> set ps \<and> event r = ''testCompleted''
        \<and> resultById (fst (dispatch_all ps st)) k = Some (r\<lparr>messages := ms\<rparr>))"
proof (induction ps arbitrary: st)
  case Nil show ?case by simp
next
  case (Cons p ps)
  show ?case
  proof (cases "dispatch p st")
    case (Pair st' e)
    show ?thesis
    proof (cases e)
      case (Some err)
      with Pair dispatch_resultById[of p st k] show ?thesis by auto
    next
      case None
      with Pair have eq: "dispatch_all (p # ps) st = dispatch_all ps st'" by simp
      from Pair have st': "fst (dispatch p st) = st'" by simp
      from Cons[of st'] show ?thesis
      proof
        assume same: "resultById (fst (dispatch_all ps st')) k = resultById st' k"
        from dispatch_resultById[of p st k] show ?thesis
        proof
          assume "resultById (fst (dispatch p st)) k = resultById st k"
          with same st' eq show ?thesis by simp
        next
          assume "\<exists>r ms. p = Inr (Some r) \<and> event r = ''testCompleted''
            \<and> resultById (fst (dispatch p st)) k = Some (r\<lparr>messages := ms\<rparr>)"
          then obtain r ms where "p = Inr (Some r)" "event r = ''testCompleted''"
            "resultById st' k = Some (r\<lparr>messages := ms\<rparr>)" using st' by auto
          with same eq have "Inr (Some r) \<in> set (p # ps) \<and> event r = ''testCompleted''
            \<and> resultById (fst (dispatch_all (p # ps) st)) k = Some (r\<lparr>messages := ms\<rparr>)"
            by simp
          then show ?thesis by blast
        qed
      next
        assume "\<exists>r ms. Inr (Some r) \<in> set ps \<and> event r = ''testCompleted''
          \<and> resultById (fst (dispatch_all ps st')) k = Some (r\<lparr>messages := ms\<rparr>)"
        then obtain r ms where "Inr (Some r) \<in> set ps" "event r = ''testCompleted''"
          "resultById (fst (dispatch_all ps st')) k = Some (r\<lparr>messages := ms\<rparr>)" by auto
        with eq have "Inr (Some r) \<in> set (p # ps) \<and> event r = ''testCompleted''
            \<and> resultById (fst (dispatch_all (p # ps) st)) k = Some (r\<lparr>messages := ms\<rparr>)"
          by simp
        then show ?thesis by blast
      qed
    qed
  qed
qed

lemma parse_each_resultById:
  "resultById (fst (parse_each ptr ls st)) k = resultById st k
   \<or> (\<exists>r ms line. line \<in> set ls \<and> ptr line = Inr (Some r) \<and> event r = ''testCompleted''
        \<and> resultById (fst (parse_each ptr ls st)) k = Some (r\<lparr>messages := ms\<rparr>))"
proof (induction ls arbitrary: st)
  case Nil show ?case by simp
next
  case (Cons l ls)
  obtain st' e where Pair: "parse ptr [l] st = (st', e)" by (cases "parse ptr [l] st")
  have one: "resultById st' k = resultById st k
     \<or> (\<exists>r ms. ptr l = Inr (Some r) \<and> event r = ''testCompleted''
          \<and> resultById st' k = Some (r\<lparr>messages := ms\<rparr>))"
  proof -
    have d: "fst (dispatch_all [ptr l] st) = st'" using Pair by (simp add: parse_def)
    show ?thesis using dispatch_all_resultById[of "[ptr l]" st k] unfolding d by fastforce
  qed
  show ?case
  proof (cases e)
    case (Some err)
    with Pair have "fst (parse_each ptr (l # ls) st) = st'" by simp
    with one show ?thesis by auto
  next
    case None
    with Pair have eq: "parse_each ptr (l # ls) st = parse_each ptr ls st'" by simp
    from Cons[of st'] show ?thesis
    proof
      assume same: "resultById (fst (parse_each ptr ls st')) k = resultById st' k"
      from one show ?thesis
      proof
        assume "resultById st' k = resultById st k"
        with same eq show ?thesis by simp
      next
        assume "\<exists>r ms. ptr l = Inr (Some r) \<and> event r = ''testCompleted''
          \<and> resultById st' k = Some (r\<lparr>messages := ms\<rparr>)"
        then obtain r ms where "ptr l = Inr (Some r)" "event r = ''testCompleted''"
          "resultById st' k = Some (r\<lparr>messages := ms\<rparr>)" by auto
        with same eq have "l \<in> set (l # ls) \<and> ptr l = Inr (Some r) \<and> event r = ''testCompleted''
          \<and> resultById (fst (parse_each ptr (l # ls) st)) k = Some (r\<lparr>messages := ms\<rparr>)"
          by simp
        then show ?thesis by blast
      qed
    next
      assume "\<exists>r ms line. line \<in> set ls \<and> ptr line = Inr (Some r) \<and> event r = ''testCompleted''
        \<and> resultById (fst (parse_each ptr ls st')) k = Some (r\<lparr>messages := ms\<rparr>)"
      then obtain r ms line where "line \<in> set ls" "ptr line = Inr (Some r)"
        "event r = ''testCompleted''"
        "resultById (fst (parse_each ptr ls st')) k = Some (r\<lparr>messages := ms\<rparr>)" by auto
      with eq have "line \<in> set (l # ls) \<and> ptr line = Inr (Some r) \<and> event r = ''testCompleted''
          \<and> resultById (fst (parse_each ptr (l # ls) st)) k = Some (r\<lparr>messages := ms\<rparr>)"
        by simp
      then show ?thesis by blast
    qed
  qed
qed

lemma stdout_stream_resultById:
  "resultById (run_ops ptr (map StdoutData chunks) st) k = resultById st k
   \<or> (\<exists>r ms line. line \<in> set (concat (map split_lines chunks)) \<and> ptr line = Inr (Some r)
        \<and> event r = ''testCompleted''
        \<and> resultById (run_ops ptr (map StdoutData chunks) st) k = Some (r\<lparr>messages := ms\<rparr>))"
proof (induction chunks arbitrary: st)
  case Nil show ?case by simp
next
  case (Cons d ds)
  define st' where "st' = fst (parse_each ptr (split_lines d) st)"
  have eq: "run_ops ptr (map StdoutData (d # ds)) st = run_ops ptr (map StdoutData ds) st'"
    by (simp add: st'_def on_stdout_data_def)
  from Cons[of st'] show ?case
  proof
    assume same: "resultById (run_ops ptr (map StdoutData ds) st') k = resultById st' k"
    from parse_each_resultById[of ptr "split_lines d" st k] show ?thesis
    proof
      assume "resultById (fst (parse_each ptr (split_lines d) st)) k = resultById st k"
      with same eq show ?thesis by (simp add: st'_def)
    next
      assume "\<exists>r ms line. line \<in> set (split_lines d) \<and> ptr line = Inr (Some r)
        \<and> event r = ''testCompleted''
        \<and> resultById (fst (parse_each ptr (split_lines d) st)) k = Some (r\<lparr>messages := ms\<rparr>)"
      then obtain r ms line where "line \<in> set (split_lines d)" "ptr line = Inr (Some r)"
        "event r = ''testCompleted''" "resultById st' k = Some (r\<lparr>messages := ms\<rparr>)"
        by (auto simp: st'_def)
      with same eq have "line \<in> set (concat (map split_lines (d # ds))) \<and> ptr line = Inr (Some r)
        \<and> event r = ''testCompleted''
        \<and> resultById (run_ops ptr (map StdoutData (d # ds)) st) k = Some (r\<lparr>messages := ms\<rparr>)"
        by simp
      then show ?thesis by blast
    qed
  next
    assume "\<exists>r ms line. line \<in> set (concat (map split_lines ds)) \<and> ptr line = Inr (Some r)
        \<and> event r = ''testCompleted''
        \<and> resultById (run_ops ptr (map StdoutData ds) st') k = Some (r\<lparr>messages := ms\<rparr>)"
    then obtain r ms line where "line \<in> set (concat (map split_lines ds))"
      "ptr line = Inr (Some r)" "event r = ''testCompleted''"
      "resultById (run_ops ptr (map StdoutData ds) st') k = Some (r\<lparr>messages := ms\<rparr>)" by auto
    with eq have "line \<in> set (concat (map split_lines (d # ds))) \<and> ptr line = Inr (Some r)
        \<and> event r = ''testCompleted''
        \<and> resultById (run_ops ptr (map StdoutData (d # ds)) st) k = Some (r\<lparr>messages := ms\<rparr>)"
      by simp
    then show ?thesis by blast
  qed
qed

text \<open>
  A property that the message push, \<^verbatim>\<open>accept\<close>, the two starts and the close preserve holds
  in every state a runner reaches.
\<close>

lemma run_ops_invariant:
  assumes push: "\<And>m st. I st \<Longrightarrow> I (pushMessage m st)"
    and acc: "\<And>res st. I st \<Longrightarrow> I (fst (accept res st))"
    and all: "\<And>st. I st \<Longrightarrow> I (runAllTests st)"
    and some: "\<And>files st. I st \<Longrightarrow> I (runSomeTests files st)"
    and close: "\<And>st. I st \<Longrightarrow> I (fst (on_close st))"
    and init: "I st"
  shows "I (run_ops ptr xs st)"
proof -
  have disp: "I (fst (dispatch p st))" if "I st" for p st
    using that by (cases p) (simp_all add: dispatch_def push acc)
  have disp_all: "I (fst (dispatch_all ps st))" if "I st" for ps st
    using that
  proof (induction ps arbitrary: st)
    case Nil then show ?case by simp
  next
    case (Cons p ps)
    obtain st' e where d: "dispatch p st = (st', e)" by (cases "dispatch p st")
    with disp[OF Cons.prems, of p] have "I st'" by simp
    with d Cons.IH[of st'] show ?case by (cases e) simp_all
  qed
  have each: "I (fst (parse_each ptr ls st))" if "I st" for ls st
    using that
  proof (induction ls arbitrary: st)
    case Nil then show ?case by simp
  next
    case (Cons l ls)
    obtain st' e where d: "parse ptr [l] st = (st', e)" by (cases "parse ptr [l] st")
    with disp_all[OF Cons.prems, of "[ptr l]"] have "I st'" by (simp add: parse_def)
    with d Cons.IH[of st'] show ?case by (cases e) simp_all
  qed
  have step: "I (step ptr x st)" if "I st" for x st
    using that by (cases x) (simp_all add: all some close each on_stdout_data_def)
  show ?thesis using init
    by (induction xs arbitrary: st) (simp_all add: step)
qed

text \<open>No empty string reaches the buffer or a stored result.\<close>

lemma accept_messages_nonempty:
  "messages_nonempty st \<Longrightarrow> messages_nonempty (fst (accept res st))"
  by (auto simp: accept_def popMessages_def Let_def messages_nonempty_def
      split: option.splits sum.splits prod.splits)

lemma run_ops_messages_nonempty:
  "messages_nonempty st \<Longrightarrow> messages_nonempty (run_ops ptr xs st)"
proof (rule run_ops_invariant)
  fix res st assume "messages_nonempty st"
  then show "messages_nonempty (fst (accept res st))" by (rule accept_messages_nonempty)
qed (auto simp: pushMessage_def runAllTests_def runSomeTests_def on_close_def Let_def
       messages_nonempty_def)

text \<open>Lines that are no completed test only add their diagnostics to the buffer.\<close>

lemma dispatch_not_completed:
  "\<not> completed p \<Longrightarrow>
   dispatch p st = (st\<lparr>pendingMessages := pendingMessages st @ diagnostics [p]\<rparr>, None)"
  by (auto simp: completed_def diagnostics_def dispatch_def pushMessage_def accept_def
      split: sum.splits option.splits)

lemma dispatch_all_not_completed:
  "\<forall>p \<in> set mid. \<not> completed p \<Longrightarrow>
   dispatch_all mid st = (st\<lparr>pendingMessages := pendingMessages st @ diagnostics mid\<rparr>, None)"
proof (induction mid arbitrary: st)
  case Nil
  show ?case by (simp add: diagnostics_def)
next
  case (Cons p mid)
  from Cons.prems have p: "\<not> completed p" and mid: "\<forall>p \<in> set mid. \<not> completed p" by simp_all
  have d: "diagnostics (p # mid) = diagnostics [p] @ diagnostics mid"
    by (simp add: diagnostics_def)
  show ?case
    by (simp add: dispatch_not_completed[OF p] Cons.IH[OF mid] d)
qed

lemma dispatch_all_append:
  "dispatch_all xs st = (st', None) \<Longrightarrow> dispatch_all (xs @ ys) st = dispatch_all ys st'"
proof (induction xs arbitrary: st)
  case Nil then show ?case by simp
next
  case (Cons x xs)
  obtain st1 e where d: "dispatch x st = (st1, e)" by (cases "dispatch x st")
  with Cons.prems have e: "e = None" by (cases e) auto
  with d Cons.prems have "dispatch_all xs st1 = (st', None)" by simp
  from Cons.IH[OF this] d e show ?case by simp
qed

lemma accept_completed_pending:
  "event r = ''testCompleted'' \<Longrightarrow> pendingMessages (fst (accept (Some r) st)) = []"
  by (auto simp: accept_def popMessages_def Let_def split: option.splits sum.splits prod.splits)


section \<open>Lemmas about the insertion\<close>

lemma find_split:
  "List.find P cs = Some c \<Longrightarrow> \<exists>as bs. cs = as @ c # bs \<and> (\<forall>a \<in> set as. \<not> P a) \<and> P c"
proof (induction cs)
  case Nil then show ?case by simp
next
  case (Cons a cs)
  show ?case
  proof (cases "P a")
    case True
    with Cons.prems have "a = c" by simp
    with True have "a # cs = [] @ c # cs \<and> (\<forall>a \<in> set []. \<not> P a) \<and> P c" by simp
    then show ?thesis by blast
  next
    case False
    with Cons.prems have "List.find P cs = Some c" by simp
    from Cons.IH[OF this] obtain as bs where "cs = as @ c # bs" "\<forall>a \<in> set as. \<not> P a" "P c"
      by blast
    with False have "a # cs = (a # as) @ c # bs \<and> (\<forall>a \<in> set (a # as). \<not> P a) \<and> P c" by simp
    then show ?thesis by blast
  qed
qed

lemma update_found_split:
  "(\<forall>a \<in> set as. \<not> P a) \<Longrightarrow> P c \<Longrightarrow> update_found P v (as @ c # bs) = as @ v # bs"
  by (induction as) simp_all

lemma filter_split:
  "(\<forall>a \<in> set as. \<not> P a) \<Longrightarrow> P c \<Longrightarrow> filter P (as @ c # bs) = c # filter P bs"
  by (induction as) simp_all

lemma find_None_filter: "List.find P cs = None \<Longrightarrow> filter P cs = []"
  by (induction cs) (auto split: if_splits)

text \<open>Case analysis of one step of the descent.\<close>

lemma addResult'_descend:
  assumes "addResult' fsPath (Suite i l d cs f) (x # y # ys) r = Inr (s', tid)"
  obtains (reuse) as i' l' d' cs' f' bs c' where
      "cs = as @ Suite i' l' d' cs' f' # bs" "\<forall>a \<in> set as. label a \<noteq> x" "l' = x"
      "List.find (\<lambda>child. label child = x) cs = Some (Suite i' l' d' cs' f')"
      "addResult' fsPath (Suite i' l' d' cs' f') (y # ys) r = Inr (c', tid)"
      "s' = Suite i l d (as @ c' # bs) f"
    | (create) p c' where
      "\<forall>i' l' d' cs' f'. List.find (\<lambda>child. label child = x) cs \<noteq> Some (Suite i' l' d' cs' f')"
      "getFilePath fsPath r = Inr p"
      "addResult' fsPath (Suite (i @ ''/'' @ x) x (Some x) [] (Some p)) (y # ys) r = Inr (c', tid)"
      "s' = Suite i l d (cs @ [c']) f"
proof (cases "List.find (\<lambda>child. label child = x) cs")
  case None
  with assms obtain p c' where "getFilePath fsPath r = Inr p"
    "addResult' fsPath (Suite (i @ ''/'' @ x) x (Some x) [] (Some p)) (y # ys) r = Inr (c', tid)"
    "s' = Suite i l d (cs @ [c']) f"
    by (auto split: sum.splits)
  with None show ?thesis by (intro create) auto
next
  case (Some c)
  show ?thesis
  proof (cases c)
    case (Test i' l' d' f' k')
    with Some assms obtain p c' where "getFilePath fsPath r = Inr p"
      "addResult' fsPath (Suite (i @ ''/'' @ x) x (Some x) [] (Some p)) (y # ys) r = Inr (c', tid)"
      "s' = Suite i l d (cs @ [c']) f"
      by (auto split: sum.splits)
    with Some Test show ?thesis by (intro create) auto
  next
    case (Suite i' l' d' cs' f')
    with Some assms obtain c' where c': "addResult' fsPath (Suite i' l' d' cs' f') (y # ys) r = Inr (c', tid)"
      "s' = Suite i l d (update_found (\<lambda>child. label child = x) c' cs) f"
      by (auto split: sum.splits)
    from find_split[OF Some] obtain as bs where sp: "cs = as @ c # bs"
      "\<forall>a \<in> set as. label a \<noteq> x" "label c = x" by blast
    have "update_found (\<lambda>child. label child = x) c' cs = as @ c' # bs"
      unfolding sp(1) using sp(2,3) by (intro update_found_split) auto
    with c' sp Some Suite show ?thesis by (intro reuse[of as i' l' d' cs' f' bs c']) auto
  qed
qed

lemma addResult'_leaf:
  assumes "addResult' fsPath (Suite i l d cs f) [x] r = Inr (s', tid)"
  obtains p where "getFilePath fsPath r = Inr p" "tid = i @ ''/'' @ x"
    "s' = Suite i l d (cs @ [Test tid x (Some x) (Some p) (status r = ''todo'')]) f"
  using assms by (auto split: sum.splits simp: Let_def)

lemma addResult'_Nil: "addResult' fsPath n [] r \<noteq> Inr v"
  by (cases n) (simp_all split: sum.splits)

text \<open>Rule induction over the successful insertions.\<close>

lemma addResult'_cases [consumes 1, case_names leaf reuse create]:
  assumes ok: "addResult' fsPath n ls r = Inr (n', tid)"
    and leaf: "\<And>i l d cs f x p.
        getFilePath fsPath r = Inr p \<Longrightarrow>
        Q (Suite i l d cs f) [x]
          (Suite i l d (cs @ [Test (i @ ''/'' @ x) x (Some x) (Some p) (status r = ''todo'')]) f)
          (i @ ''/'' @ x)"
    and reuse: "\<And>i l d cs f x y ys as i' d' cs' f' bs c' t.
        cs = as @ Suite i' x d' cs' f' # bs \<Longrightarrow> \<forall>a \<in> set as. label a \<noteq> x \<Longrightarrow>
        addResult' fsPath (Suite i' x d' cs' f') (y # ys) r = Inr (c', t) \<Longrightarrow>
        Q (Suite i' x d' cs' f') (y # ys) c' t \<Longrightarrow>
        Q (Suite i l d cs f) (x # y # ys) (Suite i l d (as @ c' # bs) f) t"
    and create: "\<And>i l d cs f x y ys p c' t.
        \<forall>i' l' d' cs' f'. List.find (\<lambda>child. label child = x) cs \<noteq> Some (Suite i' l' d' cs' f') \<Longrightarrow>
        getFilePath fsPath r = Inr p \<Longrightarrow>
        addResult' fsPath (Suite (i @ ''/'' @ x) x (Some x) [] (Some p)) (y # ys) r = Inr (c', t) \<Longrightarrow>
        Q (Suite (i @ ''/'' @ x) x (Some x) [] (Some p)) (y # ys) c' t \<Longrightarrow>
        Q (Suite i l d cs f) (x # y # ys) (Suite i l d (cs @ [c']) f) t"
  shows "Q n ls n' tid"
  using ok
proof (induction ls arbitrary: n n' tid)
  case Nil
  then show ?case by (simp add: addResult'_Nil)
next
  case (Cons x xs)
  show ?case
  proof (cases n)
    case (Test i l d f s)
    with Cons.prems show ?thesis by simp
  next
    case (Suite i l d cs f)
    show ?thesis
    proof (cases xs)
      case Nil
      from Cons.prems[unfolded Suite Nil] show ?thesis unfolding Suite Nil
      proof (rule addResult'_leaf)
        fix p assume "getFilePath fsPath r = Inr p" "tid = i @ ''/'' @ x"
          "n' = Suite i l d (cs @ [Test tid x (Some x) (Some p) (status r = ''todo'')]) f"
        with leaf[of p i l d cs f x] show "Q (Suite i l d cs f) [x] n' tid" by simp
      qed
    next
      case (Cons y ys)
      note xs = this
      from Cons.prems[unfolded Suite xs] show ?thesis unfolding Suite xs
      proof (cases rule: addResult'_descend)
        case (reuse as i' l' d' cs' f' bs c')
        have "Q (Suite i' l' d' cs' f') (y # ys) c' tid"
          using Cons.IH[unfolded xs, OF reuse(5)] .
        with reuse assms(3)[of cs as i' x d' cs' f' bs y ys c' tid i l d f]
        show "Q (Suite i l d cs f) (x # y # ys) n' tid" by simp
      next
        case (create p c')
        have "Q (Suite (i @ ''/'' @ x) x (Some x) [] (Some p)) (y # ys) c' tid"
          using Cons.IH[unfolded xs, OF create(3)] .
        with create assms(4)[of x cs p i y ys c' tid l d f]
        show "Q (Suite i l d cs f) (x # y # ys) n' tid" by simp
      qed
    qed
  qed
qed

lemma path_id_Cons: "path_id start (x # xs) = path_id (start @ ''/'' @ x) xs"
  by (simp add: path_id_def)

lemma addResult'_shape:
  "addResult' fsPath n ls r = Inr (n', tid) \<Longrightarrow>
   node_id n' = node_id n \<and> label n' = label n \<and> is_Suite n' \<and> is_Suite n"
  by (induction rule: addResult'_cases) simp_all

lemma addResult'_tid:
  "addResult' fsPath n ls r = Inr (n', tid) \<Longrightarrow> ids_ok n \<Longrightarrow> tid = path_id (node_id n) ls"
  by (induction rule: addResult'_cases) (simp_all add: path_id_def)

lemma addResult'_ids_ok:
  "addResult' fsPath n ls r = Inr (n', tid) \<Longrightarrow> ids_ok n \<Longrightarrow> ids_ok n'"
proof (induction rule: addResult'_cases)
  case (leaf i l d cs f x p)
  then show ?case by simp
next
  case (reuse i l d cs f x y ys as i' d' cs' f' bs c' t)
  from addResult'_shape[OF reuse(3)] have "node_id c' = i'" "label c' = x" by simp_all
  with reuse show ?case by simp
next
  case (create i l d cs f x y ys p c' t)
  from addResult'_shape[OF create(3)] have "node_id c' = i @ ''/'' @ x" "label c' = x" by simp_all
  with create show ?case by simp
qed

lemma nodes_at_ids:
  "ids_ok n \<Longrightarrow> m \<in> set (nodes_at n p) \<Longrightarrow> node_id m = path_id (node_id n) p"
proof (induction p arbitrary: n)
  case Nil
  then show ?case by (simp add: path_id_def)
next
  case (Cons x xs)
  show ?case
  proof (cases n)
    case (Test i l d f s)
    with Cons.prems show ?thesis by simp
  next
    case (Suite i l d cs f)
    with Cons.prems obtain c where c: "c \<in> set cs" "label c = x" "m \<in> set (nodes_at c xs)"
      by auto
    with Cons.prems(1) Suite have "ids_ok c" "node_id c = i @ ''/'' @ x" by auto
    with Cons.IH[OF this(1) c(3)] Suite show ?thesis by (simp add: path_id_Cons)
  qed
qed

lemma addResult'_new_node:
  "addResult' fsPath n ls r = Inr (n', tid) \<Longrightarrow>
   \<exists>A B p. nodes_at n ls = A @ B \<and> getFilePath fsPath r = Inr p \<and>
     nodes_at n' ls = A @ [Test tid (last ls) (Some (last ls)) (Some p) (status r = ''todo'')] @ B"
proof (induction rule: addResult'_cases)
  case (leaf i l d cs f x p)
  have "nodes_at (Suite i l d cs f) [x] = filter (\<lambda>c. label c = x) cs @ []"
    by (induction cs) simp_all
  moreover have "nodes_at (Suite i l d (cs @ [Test (i @ ''/'' @ x) x (Some x) (Some p) (status r = ''todo'')]) f) [x]
      = filter (\<lambda>c. label c = x) cs @ [Test (i @ ''/'' @ x) x (Some x) (Some p) (status r = ''todo'')] @ []"
    by (induction cs) simp_all
  ultimately show ?case using leaf by auto
next
  case (reuse i l d cs f x y ys as i' d' cs' f' bs c' t)
  then obtain A B p where ih: "nodes_at (Suite i' x d' cs' f') (y # ys) = A @ B"
    "getFilePath fsPath r = Inr p"
    "nodes_at c' (y # ys) = A @ [Test t (last (y # ys)) (Some (last (y # ys))) (Some p) (status r = ''todo'')] @ B"
    by blast
  from addResult'_shape[OF reuse(3)] have lc: "label c' = x" by simp
  let ?rest = "concat (map (\<lambda>c. nodes_at c (y # ys)) (filter (\<lambda>c. label c = x) bs))"
  have "nodes_at (Suite i l d cs f) (x # y # ys) = A @ (B @ ?rest)"
    using reuse(1,2) ih(1) by (simp add: filter_split)
  moreover have "nodes_at (Suite i l d (as @ c' # bs) f) (x # y # ys)
      = A @ [Test t (last (x # y # ys)) (Some (last (x # y # ys))) (Some p) (status r = ''todo'')] @ (B @ ?rest)"
    using reuse(2) ih(3) lc by (simp add: filter_split)
  ultimately show ?case using ih(2) by blast
next
  case (create i l d cs f x y ys p c' t)
  then obtain A B p' where ih: "nodes_at (Suite (i @ ''/'' @ x) x (Some x) [] (Some p)) (y # ys) = A @ B"
    "getFilePath fsPath r = Inr p'"
    "nodes_at c' (y # ys) = A @ [Test t (last (y # ys)) (Some (last (y # ys))) (Some p') (status r = ''todo'')] @ B"
    by blast
  from ih(1) have AB: "A = []" "B = []" by simp_all
  from addResult'_shape[OF create(3)] have lc: "label c' = x" by simp
  let ?old = "concat (map (\<lambda>c. nodes_at c (y # ys)) (filter (\<lambda>c. label c = x) cs))"
  have "nodes_at (Suite i l d cs f) (x # y # ys) = ?old @ []" by simp
  moreover have "nodes_at (Suite i l d (cs @ [c']) f) (x # y # ys)
      = ?old @ [Test t (last (x # y # ys)) (Some (last (x # y # ys))) (Some p') (status r = ''todo'')] @ []"
    using ih(3) AB lc by simp
  ultimately show ?case using ih(2) by blast
qed

lemma subnodes_nodes_at: "m \<in> set (subnodes n) \<Longrightarrow> \<exists>p. m \<in> set (nodes_at n p)"
proof (induction n arbitrary: m rule: subnodes.induct)
  case (1 i l d f s)
  then have "m \<in> set (nodes_at (Test i l d f s) [])" by simp
  then show ?case by blast
next
  case (2 i l d cs f)
  show ?case
  proof (cases "m = Suite i l d cs f")
    case True
    then have "m \<in> set (nodes_at (Suite i l d cs f) [])" by simp
    then show ?thesis by blast
  next
    case False
    with "2.prems" obtain c where c: "c \<in> set cs" "m \<in> set (subnodes c)" by auto
    from "2.IH"[OF this] obtain p where "m \<in> set (nodes_at c p)" by blast
    with c(1) have "m \<in> set (nodes_at (Suite i l d cs f) (label c # p))" by auto
    then show ?thesis by blast
  qed
qed

lemma addResult_trees_ok:
  "trees_ok st \<Longrightarrow> trees_ok (fst (accept res st))"
proof -
  assume ok: "trees_ok st"
  have "node_id s' = ''root'' \<and> ids_ok s'"
    if "loadingSuite st = Some s" "addResult fsPath s r = Inr (s', tid)" for s fsPath r s' tid
    using that ok addResult'_shape[of fsPath s "labels r" r s' tid]
      addResult'_ids_ok[of fsPath s "labels r" r s' tid]
    by (simp add: trees_ok_def addResult_def)
  with ok show ?thesis
    by (auto simp: accept_def popMessages_def Let_def trees_ok_def
        split: option.splits sum.splits prod.splits)
qed

lemma run_ops_trees_ok: "trees_ok (run_ops ptr xs (new_runner fsPath))"
proof (rule run_ops_invariant)
  show "trees_ok (new_runner fsPath)" by (simp add: trees_ok_def new_runner_def)
next
  fix res st assume "trees_ok st"
  then show "trees_ok (fst (accept res st))" by (rule addResult_trees_ok)
qed (auto simp: pushMessage_def runAllTests_def runSomeTests_def
       on_close_def Let_def trees_ok_def root_suite_def)

lemma find_first: "(\<forall>a \<in> set as. \<not> P a) \<Longrightarrow> P c \<Longrightarrow> List.find P (as @ c # bs) = Some c"
  by (induction as) simp_all

lemma find_last: "List.find P cs = None \<Longrightarrow> P c \<Longrightarrow> List.find P (cs @ [c]) = Some c"
  by (induction cs) (auto split: if_splits)

lemma shadowed_empty: "\<not> shadowed (Suite i l d [] f) p"
  by (cases p) simp_all

lemma addResult'_total:
  "is_Suite n \<Longrightarrow> ls \<noteq> [] \<Longrightarrow> labels r \<noteq> [] \<Longrightarrow>
   \<exists>n' tid. addResult' fsPath n ls r = Inr (n', tid)"
proof (induction ls arbitrary: n)
  case Nil then show ?case by simp
next
  case (Cons x xs)
  from Cons.prems(1) obtain i l d cs f where n: "n = Suite i l d cs f" by (cases n) simp_all
  from Cons.prems(3) obtain p where p: "getFilePath fsPath r = Inr p"
    by (cases "labels r") (simp_all add: getFilePath_def)
  show ?case
  proof (cases xs)
    case Nil
    with n p show ?thesis by (simp add: Let_def)
  next
    case (Cons y ys)
    note xs = this
    show ?thesis
    proof (cases "List.find (\<lambda>child. label child = x) cs")
      case None
      from Cons.IH[of "Suite (i @ ''/'' @ x) x (Some x) [] (Some p)"] Cons.prems xs
      obtain n' tid where "addResult' fsPath (Suite (i @ ''/'' @ x) x (Some x) [] (Some p)) (y # ys) r = Inr (n', tid)"
        by auto
      with None n p xs show ?thesis by simp
    next
      case (Some c)
      show ?thesis
      proof (cases c)
        case (Test i' l' d' f' s')
        from Cons.IH[of "Suite (i @ ''/'' @ x) x (Some x) [] (Some p)"] Cons.prems xs
        obtain n' tid where "addResult' fsPath (Suite (i @ ''/'' @ x) x (Some x) [] (Some p)) (y # ys) r = Inr (n', tid)"
          by auto
        with Some Test n p xs show ?thesis by simp
      next
        case (Suite i' l' d' cs' f')
        from Cons.IH[of c] Cons.prems xs Suite
        obtain n' tid where "addResult' fsPath (Suite i' l' d' cs' f') (y # ys) r = Inr (n', tid)"
          by auto
        with Some Suite n xs show ?thesis by simp
      qed
    qed
  qed
qed

lemma insert_makes_reusable:
  "addResult' fsPath n (p @ q) r = Inr (n1, tid) \<Longrightarrow> q \<noteq> [] \<Longrightarrow> \<not> shadowed n p \<Longrightarrow>
   reusable n1 p"
proof (induction p arbitrary: n n1)
  case Nil
  show ?case by simp
next
  case (Cons x xs)
  from addResult'_shape[OF Cons.prems(1)] obtain i l d cs f where n: "n = Suite i l d cs f"
    by (cases n) simp_all
  from Cons.prems(2) obtain y ys where ys: "xs @ q = y # ys" by (cases "xs @ q") simp_all
  from Cons.prems(1) have "addResult' fsPath (Suite i l d cs f) (x # y # ys) r = Inr (n1, tid)"
    by (simp add: n ys)
  then show ?case
  proof (cases rule: addResult'_descend)
    case (reuse as i' l' d' cs' f' bs c')
    from Cons.prems(3) reuse(4) have ns: "\<not> shadowed (Suite i' l' d' cs' f') xs"
      by (simp add: n)
    from reuse(5) have "addResult' fsPath (Suite i' l' d' cs' f') (xs @ q) r = Inr (c', tid)"
      by (simp add: ys)
    from Cons.IH[OF this Cons.prems(2) ns] have r: "reusable c' xs" .
    from addResult'_shape[OF reuse(5)] reuse(3) have c': "label c' = x" "is_Suite c'" by simp_all
    then have "List.find (\<lambda>child. label child = x) (as @ c' # bs) = Some c'"
      using reuse(2) by (intro find_first) auto
    with r c' reuse(6) show ?thesis by (cases c') simp_all
  next
    case (create pth c')
    from Cons.prems(3) create(1) have none: "List.find (\<lambda>child. label child = x) cs = None"
      by (auto simp: n split: option.splits node.splits)
    from create(3) have "addResult' fsPath (Suite (i @ ''/'' @ x) x (Some x) [] (Some pth)) (xs @ q) r = Inr (c', tid)"
      by (simp add: ys)
    from Cons.IH[OF this Cons.prems(2) shadowed_empty] have r: "reusable c' xs" .
    from addResult'_shape[OF create(3)] have c': "label c' = x" "is_Suite c'" by simp_all
    then have "List.find (\<lambda>child. label child = x) (cs @ [c']) = Some c'"
      using none by (intro find_last) auto
    with r c' create(4) show ?thesis by (cases c') simp_all
  qed
qed

lemma reuse_keeps_suites:
  "addResult' fsPath n (p @ q) r = Inr (n', tid) \<Longrightarrow> q \<noteq> [] \<Longrightarrow> reusable n p \<Longrightarrow>
   prefix p' p \<Longrightarrow> length (suites_at n' p') = length (suites_at n p')"
proof (induction p arbitrary: n n' p')
  case Nil
  then have "p' = []" by simp
  with addResult'_shape[OF Nil.prems(1)] show ?case by (simp add: suites_at_def)
next
  case (Cons x xs)
  from addResult'_shape[OF Cons.prems(1)] obtain i l d cs f where n: "n = Suite i l d cs f"
    by (cases n) simp_all
  from Cons.prems(2) obtain y ys where ys: "xs @ q = y # ys" by (cases "xs @ q") simp_all
  show ?case
  proof (cases p')
    case Nil
    with addResult'_shape[OF Cons.prems(1)] show ?thesis by (simp add: suites_at_def)
  next
    case (Cons x' p'')
    with Cons.prems(4) have p': "p' = x # p''" and pre: "prefix p'' xs" by simp_all
    from Cons.prems(1) have "addResult' fsPath (Suite i l d cs f) (x # y # ys) r = Inr (n', tid)"
      by (simp add: n ys)
    then show ?thesis
    proof (cases rule: addResult'_descend)
      case (reuse as i' l' d' cs' f' bs c')
      from Cons.prems(3) reuse(4) have re: "reusable (Suite i' l' d' cs' f') xs"
        by (simp add: n)
      from reuse(5) have "addResult' fsPath (Suite i' l' d' cs' f') (xs @ q) r = Inr (c', tid)"
        by (simp add: ys)
      from Cons.IH[OF this Cons.prems(2) re pre]
      have ih: "length (suites_at c' p'') = length (suites_at (Suite i' l' d' cs' f') p'')" .
      from addResult'_shape[OF reuse(5)] reuse(3) have c': "label c' = x" by simp
      have "nodes_at n' p' = nodes_at c' p''
          @ concat (map (\<lambda>c. nodes_at c p'') (filter (\<lambda>c. label c = x) bs))"
        using reuse(2) c' by (simp add: reuse(6) p' filter_split)
      moreover have "nodes_at n p' = nodes_at (Suite i' l' d' cs' f') p''
          @ concat (map (\<lambda>c. nodes_at c p'') (filter (\<lambda>c. label c = x) bs))"
        using reuse(2,3) by (simp add: n reuse(1) p' filter_split)
      ultimately show ?thesis using ih by (simp add: suites_at_def)
    next
      case (create pth c')
      with Cons.prems(3) show ?thesis
        by (auto simp: n split: option.splits node.splits)
    qed
  qed
qed

text \<open>The insertion keeps a first suite the only suite with its label.\<close>

lemma find_key:
  "List.find (\<lambda>k. fst k = x) (map key cs) = map_option key (List.find (\<lambda>c. label c = x) cs)"
  by (induction cs) (simp_all add: key_def)

lemma filter_key:
  "length (filter (\<lambda>k. k = (x, True)) (map key cs))
   = length (filter (\<lambda>c. is_Suite c \<and> label c = x) cs)"
  by (induction cs) (auto simp: key_def)

lemma find_snoc:
  "List.find P (ks @ [k]) =
     (case List.find P ks of None \<Rightarrow> (if P k then Some k else None) | Some a \<Rightarrow> Some a)"
  by (induction ks) simp_all

lemma first_suite_alone_snoc:
  assumes "first_suite_alone ks"
    and "snd k \<Longrightarrow> List.find (\<lambda>k'. fst k' = fst k) ks \<noteq> Some (fst k, True)"
  shows "first_suite_alone (ks @ [k])"
  unfolding first_suite_alone_def
proof (intro allI impI)
  fix x
  assume f: "List.find (\<lambda>k. fst k = x) (ks @ [k]) = Some (x, True)"
  show "length (filter (\<lambda>k. k = (x, True)) (ks @ [k])) = 1"
  proof (cases "List.find (\<lambda>k. fst k = x) ks")
    case None
    with f have k: "k = (x, True)" by (simp add: find_snoc split: if_splits)
    from None have "\<forall>a \<in> set ks. fst a \<noteq> x" by (auto simp: find_None_iff)
    then have "filter (\<lambda>k. k = (x, True)) ks = []" by (auto simp: filter_empty_conv)
    with k show ?thesis by simp
  next
    case (Some a)
    with f have a: "List.find (\<lambda>k. fst k = x) ks = Some (x, True)" by (simp add: find_snoc)
    with assms(1) have one: "length (filter (\<lambda>k. k = (x, True)) ks) = 1"
      by (simp add: first_suite_alone_def)
    have "k \<noteq> (x, True)"
    proof
      assume "k = (x, True)"
      with assms(2) a show False by simp
    qed
    with one show ?thesis by simp
  qed
qed

lemma suites_unique_fresh: "suites_unique (Suite i l d [] f)"
  by (simp add: first_suite_alone_def)

lemma addResult'_suites_unique:
  "addResult' fsPath n ls r = Inr (n', tid) \<Longrightarrow> suites_unique n \<Longrightarrow> suites_unique n'"
proof (induction rule: addResult'_cases)
  case (leaf i l d cs f x p)
  then have "first_suite_alone (map key cs @ [(x, False)])"
    by (intro first_suite_alone_snoc) simp_all
  with leaf show ?case by (simp add: key_def)
next
  case (reuse i l d cs f x y ys as i' d' cs' f' bs c' t)
  from addResult'_shape[OF reuse(3)] have "key c' = key (Suite i' x d' cs' f')"
    by (simp add: key_def)
  then have "map key (as @ c' # bs) = map key cs" by (simp add: reuse(1))
  with reuse show ?case by simp
next
  case (create i l d cs f x y ys p c' t)
  from addResult'_shape[OF create(3)] have k: "key c' = (x, True)" by (simp add: key_def)
  have "List.find (\<lambda>k'. fst k' = x) (map key cs) \<noteq> Some (x, True)"
  proof
    assume "List.find (\<lambda>k'. fst k' = x) (map key cs) = Some (x, True)"
    then obtain c where c: "List.find (\<lambda>c. label c = x) cs = Some c" "key c = (x, True)"
      by (auto simp: find_key)
    then obtain i' l' d' cs' f' where "c = Suite i' l' d' cs' f'"
      by (cases c) (simp_all add: key_def)
    with c(1) create(1) show False by simp
  qed
  with create(5) have "first_suite_alone (map key cs @ [(x, True)])"
    by (intro first_suite_alone_snoc) simp_all
  with create k suites_unique_fresh show ?case by simp
qed

text \<open>Where the descent finds a suite for every label, there is one suite at the path.\<close>

lemma reusable_prefix: "reusable n p \<Longrightarrow> prefix p' p \<Longrightarrow> reusable n p'"
proof (induction p arbitrary: n p')
  case Nil
  then show ?case by simp
next
  case (Cons x xs)
  show ?case
  proof (cases p')
    case Nil
    then show ?thesis by simp
  next
    case (Cons x' p'')
    with Cons.prems(2) have p': "p' = x # p''" and pre: "prefix p'' xs" by simp_all
    from Cons.prems(1) obtain i l d cs f where n: "n = Suite i l d cs f" by (cases n) simp_all
    from Cons.prems(1) obtain i' l' d' cs' f' where
      c: "List.find (\<lambda>child. label child = x) cs = Some (Suite i' l' d' cs' f')"
        "reusable (Suite i' l' d' cs' f') xs"
      by (auto simp: n split: option.splits node.splits)
    from Cons.IH[OF c(2) pre] c(1) show ?thesis by (simp add: n p')
  qed
qed

lemma no_suites_below_test: "\<not> is_Suite c \<Longrightarrow> filter is_Suite (nodes_at c xs) = []"
  by (cases c; cases xs) simp_all

lemma suites_at_children:
  "filter is_Suite (concat (map (\<lambda>c. nodes_at c xs) (filter (\<lambda>c. label c = x) cs)))
   = concat (map (\<lambda>c. suites_at c xs) (filter (\<lambda>c. is_Suite c \<and> label c = x) cs))"
  by (induction cs) (auto simp: suites_at_def no_suites_below_test)

lemma singleton_filter:
  "length (filter Q cs) = 1 \<Longrightarrow> c \<in> set cs \<Longrightarrow> Q c \<Longrightarrow> filter Q cs = [c]"
proof -
  assume l: "length (filter Q cs) = 1" and "c \<in> set cs" "Q c"
  then have "c \<in> set (filter Q cs)" by simp
  with l show ?thesis by (cases "filter Q cs") auto
qed

lemma reusable_one_suite:
  "is_Suite n \<Longrightarrow> suites_unique n \<Longrightarrow> reusable n p \<Longrightarrow> length (suites_at n p) = 1"
proof (induction p arbitrary: n)
  case Nil
  then show ?case by (simp add: suites_at_def)
next
  case (Cons x xs)
  from Cons.prems(1) obtain i l d cs f where n: "n = Suite i l d cs f" by (cases n) simp_all
  from Cons.prems(3) obtain i' l' d' cs' f' where
    c: "List.find (\<lambda>child. label child = x) cs = Some (Suite i' l' d' cs' f')"
      "reusable (Suite i' l' d' cs' f') xs"
    by (auto simp: n split: option.splits node.splits)
  let ?c = "Suite i' l' d' cs' f'"
  from find_split[OF c(1)] have mem: "?c \<in> set cs" and lab: "l' = x" by auto
  from c(1) lab have "List.find (\<lambda>k. fst k = x) (map key cs) = Some (x, True)"
    by (simp add: find_key key_def)
  moreover from Cons.prems(2) have "first_suite_alone (map key cs)" by (simp add: n)
  ultimately have "length (filter (\<lambda>k. k = (x, True)) (map key cs)) = 1"
    unfolding first_suite_alone_def by blast
  then have "length (filter (\<lambda>c. is_Suite c \<and> label c = x) cs) = 1"
    unfolding filter_key .
  from singleton_filter[OF this mem] lab
  have only: "filter (\<lambda>c. is_Suite c \<and> label c = x) cs = [?c]" by simp
  from Cons.prems(2) have "\<forall>c \<in> set cs. suites_unique c" by (simp add: n)
  with mem have "suites_unique ?c" by blast
  from Cons.IH[OF _ this c(2)] have "length (suites_at ?c xs) = 1" by simp
  moreover have "suites_at n (x # xs) = suites_at ?c xs"
    unfolding n suites_at_def nodes_at.simps suites_at_children only by (simp add: suites_at_def)
  ultimately show ?case by simp
qed

text \<open>Every loading tree that a runner reaches has the property.\<close>

lemma accept_loading_unique: "loading_unique st \<Longrightarrow> loading_unique (fst (accept res st))"
proof -
  assume ok: "loading_unique st"
  have "is_Suite s' \<and> suites_unique s'"
    if "loadingSuite st = Some s" "addResult fsPath s r = Inr (s', tid)" for s fsPath r s' tid
    using that ok addResult'_shape[of fsPath s "labels r" r s' tid]
      addResult'_suites_unique[of fsPath s "labels r" r s' tid]
    by (simp add: loading_unique_def addResult_def)
  with ok show ?thesis
    by (auto simp: accept_def popMessages_def Let_def loading_unique_def
        split: option.splits sum.splits prod.splits)
qed

lemma run_ops_loading_unique: "loading_unique (run_ops ptr xs (new_runner fsPath))"
proof (rule run_ops_invariant)
  show "loading_unique (new_runner fsPath)" by (simp add: loading_unique_def new_runner_def)
next
  fix res st assume "loading_unique st"
  then show "loading_unique (fst (accept res st))" by (rule accept_loading_unique)
qed (auto simp: pushMessage_def runAllTests_def runSomeTests_def
       on_close_def Let_def loading_unique_def root_suite_def first_suite_alone_def)

section \<open>The claims\<close>

text \<open>
  C1 (as the code has it). Neither \<^verbatim>\<open>runAllTests\<close> nor \<^verbatim>\<open>runSomeTests\<close> touches the result
  index, and no other code removes an entry. After a run started by either and fed any
  chunks of standard output, the entry of every id is the one from before the run, unless
  a completed test that the parser delivered from a line of this run has overwritten it.
\<close>

theorem result_index_never_cleared:
  "resultById (runAllTests st) = resultById st
   \<and> resultById (runSomeTests files st) = resultById st
   \<and> (\<forall>start \<in> {RunAll, RunSome files}.
        resultById (run_ops ptr (start # map StdoutData chunks) st) k = resultById st k
        \<or> (\<exists>r ms line. line \<in> set (concat (map split_lines chunks)) \<and> ptr line = Inr (Some r)
             \<and> event r = ''testCompleted''
             \<and> resultById (run_ops ptr (start # map StdoutData chunks) st) k
                 = Some (r\<lparr>messages := ms\<rparr>)))"
proof -
  have a: "resultById (runAllTests st) = resultById st" by (simp add: runAllTests_def)
  have s: "resultById (runSomeTests files st) = resultById st" by (simp add: runSomeTests_def)
  show ?thesis
    using a s stdout_stream_resultById[of ptr chunks "runAllTests st" k]
      stdout_stream_resultById[of ptr chunks "runSomeTests files st" k]
    by simp
qed

text \<open>
  C1, witness: an index that holds a result under the id \<open>root/Old/t\<close> still holds it after
  a full and after a partial run that report another test.
\<close>

theorem result_index_never_cleared_witness:
  "resultById (run_ops example_parser (RunAll # map StdoutData [''T''])
      ((new_runner ''/ws'')\<lparr>resultById := [''root/Old/t'' \<mapsto> r_pass]\<rparr>)) ''root/Old/t''
    = Some r_pass
   \<and> resultById (run_ops example_parser (RunSome [''tests/Mod.elm''] # map StdoutData [''T''])
      ((new_runner ''/ws'')\<lparr>resultById := [''root/Old/t'' \<mapsto> r_pass]\<rparr>)) ''root/Old/t''
    = Some r_pass"
proof -
  let ?st = "(new_runner ''/ws'')\<lparr>resultById := [''root/Old/t'' \<mapsto> r_pass]\<rparr>"
  have "resultById (run_ops example_parser (RunAll # map StdoutData [''T'']) ?st) ''root/Old/t''
      = Some r_pass"
    by (simp add: runAllTests_def new_runner_def on_stdout_data_def parse_def dispatch_def
        accept_def popMessages_def addResult_def getFilePath_def root_suite_def r_pass_def
        example_parser_def Let_def)
  moreover have "resultById (run_ops example_parser
      (RunSome [''tests/Mod.elm''] # map StdoutData [''T'']) ?st) ''root/Old/t'' = Some r_pass"
    by (simp add: runSomeTests_def new_runner_def on_stdout_data_def parse_def dispatch_def
        accept_def popMessages_def addResult_def getFilePath_def root_suite_def r_pass_def
        example_parser_def Let_def)
  ultimately show ?thesis
    using result_index_never_cleared[of ?st "[''tests/Mod.elm'']" example_parser "[''T'']"
        "''root/Old/t''"]
    by simp
qed

text \<open>
  C1, counterexample: a full run stores the result of \<open>Mod.case1\<close>; when the next full run
  starts, the result is still in the index.
\<close>

theorem full_run_keeps_results:
  "resultById (runAllTests (fst (dispatch_all [Inr (Some r_pass)] (runAllTests (new_runner ''/ws'')))))
     ''root/Mod/case1'' = Some r_pass"
  by (simp add: runAllTests_def new_runner_def dispatch_def accept_def popMessages_def
      addResult_def getFilePath_def root_suite_def r_pass_def)

text \<open>
  C2. Let a completed test \<open>r0\<close> be accepted, then lines \<open>ls\<close> that are no completed test be
  dispatched, then a completed test \<open>r\<close> that the tree takes. The buffer is empty right after
  \<open>r0\<close>; the index then changes in one entry only, the one of \<open>r\<close>, whose messages are the
  diagnostic strings of \<open>ls\<close> in arrival order; and the buffer is empty again.
\<close>

theorem messages_attach_to_next_result:
  assumes "ptr l0 = Inr (Some r0)" and "event r0 = ''testCompleted''"
    and "\<forall>x \<in> set ls. \<not> completed (ptr x)"
    and "ptr l = Inr (Some r)" and "event r = ''testCompleted''"
    and "st = fst (parse ptr [l0] st0)"
    and "loadingSuite st = Some s"
    and "addResult (folder st) s (r\<lparr>messages := diagnostics (map ptr ls)\<rparr>) = Inr (s', tid)"
  shows "pendingMessages st = []
    \<and> parse ptr (ls @ [l]) st =
        (st\<lparr>loadingSuite := Some s',
            resultById := (resultById st)(tid \<mapsto> r\<lparr>messages := diagnostics (map ptr ls)\<rparr>)\<rparr>,
         None)
    \<and> pendingMessages (fst (parse ptr (ls @ [l]) st)) = []"
proof -
  let ?mid = "map ptr ls"
  have "fst (parse ptr [l0] st0) = fst (accept (Some r0) st0)"
    using assms(1) by (simp add: parse_def dispatch_def split: prod.splits option.splits)
  then have empty: "pendingMessages st = []"
    using assms(2,6) by (simp add: accept_completed_pending)
  have "\<forall>p \<in> set ?mid. \<not> completed p" using assms(3) by simp
  from dispatch_all_not_completed[OF this, of st] empty
  have mid: "dispatch_all ?mid st = (st\<lparr>pendingMessages := diagnostics ?mid\<rparr>, None)"
    by simp
  have last: "dispatch (Inr (Some r)) (st\<lparr>pendingMessages := diagnostics ?mid\<rparr>) =
      (st\<lparr>loadingSuite := Some s',
          resultById := (resultById st)(tid \<mapsto> r\<lparr>messages := diagnostics ?mid\<rparr>)\<rparr>, None)"
    using assms(5,7,8) empty by (simp add: dispatch_def accept_def popMessages_def Let_def)
  have "parse ptr (ls @ [l]) st =
      (st\<lparr>loadingSuite := Some s',
          resultById := (resultById st)(tid \<mapsto> r\<lparr>messages := diagnostics ?mid\<rparr>)\<rparr>, None)"
    using dispatch_all_append[OF mid, of "[Inr (Some r)]"] last assms(4) by (simp add: parse_def)
  with empty show ?thesis by simp
qed

text \<open>
  C2, witness: after the result of \<open>case1\<close>, two diagnostic lines, an empty line and a
  \<open>runStart\<close> event arrive before the result of \<open>case2\<close>, which gets the two lines; the entry of
  \<open>case1\<close> keeps its empty messages.
\<close>

theorem messages_attach_to_next_result_witness:
  "pendingMessages (fst (parse example_parser [''T''] (runAllTests (new_runner ''/ws'')))) = []
   \<and> resultById (fst (parse example_parser [''log1'', [], ''S'', ''log2'', ''U'']
        (fst (parse example_parser [''T''] (runAllTests (new_runner ''/ws''))))))
      = [''root/Mod/case1'' \<mapsto> r_pass,
         ''root/Mod/case2'' \<mapsto> r_todo\<lparr>messages := [''log1'', ''log2'']\<rparr>]
   \<and> pendingMessages (fst (parse example_parser [''log1'', [], ''S'', ''log2'', ''U'']
        (fst (parse example_parser [''T''] (runAllTests (new_runner ''/ws'')))))) = []"
proof -
  let ?st = "fst (parse example_parser [''T''] (runAllTests (new_runner ''/ws'')))"
  let ?s = "Suite ''root'' ''root'' None
      [Suite ''root/Mod'' ''Mod'' (Some ''Mod'')
         [Test ''root/Mod/case1'' ''case1'' (Some ''case1'') (Some ''/ws/tests/Mod.elm'') False]
         (Some ''/ws/tests/Mod.elm'')] None"
  let ?s' = "Suite ''root'' ''root'' None
      [Suite ''root/Mod'' ''Mod'' (Some ''Mod'')
         [Test ''root/Mod/case1'' ''case1'' (Some ''case1'') (Some ''/ws/tests/Mod.elm'') False,
          Test ''root/Mod/case2'' ''case2'' (Some ''case2'') (Some ''/ws/tests/Mod.elm'') True]
         (Some ''/ws/tests/Mod.elm'')] None"
  have st: "?st = \<lparr>folder = ''/ws'', loadedSuite = None,
      resultById = [''root/Mod/case1'' \<mapsto> r_pass], loadingSuite = Some ?s,
      pendingMessages = []\<rparr>"
    by (simp add: runAllTests_def new_runner_def parse_def dispatch_def
        accept_def popMessages_def addResult_def getFilePath_def root_suite_def
        r_pass_def example_parser_def Let_def)
  have h1: "example_parser ''T'' = Inr (Some r_pass)" by (simp add: example_parser_def)
  have h2: "event r_pass = ''testCompleted''" by (simp add: r_pass_def)
  have h3: "\<forall>x \<in> set [''log1'', [], ''S'', ''log2'']. \<not> completed (example_parser x)"
    by (simp add: completed_def example_parser_def r_start_def)
  have h4: "example_parser ''U'' = Inr (Some r_todo)" by (simp add: example_parser_def)
  have h5: "event r_todo = ''testCompleted''" by (simp add: r_todo_def)
  have h7: "loadingSuite ?st = Some ?s" by (simp add: st)
  have d: "diagnostics (map example_parser [''log1'', [], ''S'', ''log2'']) = [''log1'', ''log2'']"
    by (simp add: diagnostics_def example_parser_def)
  have h8: "addResult (folder ?st) ?s
      (r_todo\<lparr>messages := diagnostics (map example_parser [''log1'', [], ''S'', ''log2''])\<rparr>)
      = Inr (?s', ''root/Mod/case2'')"
    unfolding d by (simp add: st addResult_def getFilePath_def r_todo_def)
  from messages_attach_to_next_result [OF h1 h2 h3 h4 h5 refl h7 h8]
  show ?thesis unfolding d by (simp add: st)
qed

text \<open>
  C3 (as the code has it). Two results whose labels share the prefix \<open>p\<close> and go on after it
  are inserted one after the other into the loading tree of any state that a new runner
  reaches; as the roles of the two are the same, this covers either order. When the descent
  along \<open>p\<close> meets no \<^verbatim>\<open>Test\<close> as the first child with a label of \<open>p\<close>, both insertions
  succeed, and after the first and after the second there is exactly one suite at every
  prefix of \<open>p\<close>: the second insertion reuses the suites that the first found or created.
\<close>

theorem shared_prefix_suites_reused:
  assumes "st = run_ops ptr xs (new_runner fsPath)" and "loadingSuite st = Some t"
    and "labels r1 = p @ q1" and "labels r2 = p @ q2"
    and "q1 \<noteq> []" and "q2 \<noteq> []"
    and "\<not> shadowed t p" and "prefix p' p"
  shows "\<exists>s1 t1 s2 t2.
      addResult (folder st) t r1 = Inr (s1, t1) \<and> addResult (folder st) s1 r2 = Inr (s2, t2)
      \<and> length (suites_at s1 p') = 1 \<and> length (suites_at s2 p') = 1"
proof -
  from run_ops_loading_unique[of ptr xs fsPath] assms(1,2)
  have t: "is_Suite t" "suites_unique t" by (simp_all add: loading_unique_def)
  from assms(3,5) have l1: "labels r1 \<noteq> []" by simp
  from assms(4,6) have l2: "labels r2 \<noteq> []" by simp
  from addResult'_total[OF t(1) l1 l1, of "folder st"]
  obtain s1 t1 where a1: "addResult' (folder st) t (p @ q1) r1 = Inr (s1, t1)"
    using assms(3) by auto
  from addResult'_shape[OF a1] have s1: "is_Suite s1" by simp
  from addResult'_total[OF this l2 l2, of "folder st"]
  obtain s2 t2 where a2: "addResult' (folder st) s1 (p @ q2) r2 = Inr (s2, t2)"
    using assms(4) by auto
  have re: "reusable s1 p"
    by (rule insert_makes_reusable[OF a1 assms(5,7)])
  have u1: "suites_unique s1"
    by (rule addResult'_suites_unique[OF a1 t(2)])
  have one: "length (suites_at s1 p') = 1"
    by (rule reusable_one_suite[OF s1 u1 reusable_prefix[OF re assms(8)]])
  have same: "length (suites_at s2 p') = length (suites_at s1 p')"
    by (rule reuse_keeps_suites[OF a2 assms(6) re assms(8)])
  from a1 have b1: "addResult (folder st) t r1 = Inr (s1, t1)"
    by (simp add: addResult_def assms(3))
  from a2 have b2: "addResult (folder st) s1 r2 = Inr (s2, t2)"
    by (simp add: addResult_def assms(4))
  show ?thesis
    by (rule exI[of _ s1], rule exI[of _ t1], rule exI[of _ s2], rule exI[of _ t2])
      (use b1 b2 same one in simp)
qed

text \<open>
  C3, witness: the results with labels \<open>M, a, b\<close> and \<open>M, a, c\<close>, inserted into the loading
  tree of a run that has just started, share the one suite \<open>a\<close> of the one suite \<open>M\<close>.
\<close>

theorem shared_prefix_suites_reused_witness:
  "loadingSuite (run_ops example_parser [RunAll] (new_runner ''/ws'')) =
     Some (Suite ''root'' ''root'' None [] None)
   \<and> addResult ''/ws'' (Suite ''root'' ''root'' None [] None) r_deep1 =
       Inr (Suite ''root'' ''root'' None
              [Suite ''root/M'' ''M'' (Some ''M'')
                 [Suite ''root/M/a'' ''a'' (Some ''a'')
                    [Test ''root/M/a/b'' ''b'' (Some ''b'') (Some ''/ws/tests/M.elm'') False]
                    (Some ''/ws/tests/M.elm'')]
                 (Some ''/ws/tests/M.elm'')] None, ''root/M/a/b'')
   \<and> addResult ''/ws'' (Suite ''root'' ''root'' None
              [Suite ''root/M'' ''M'' (Some ''M'')
                 [Suite ''root/M/a'' ''a'' (Some ''a'')
                    [Test ''root/M/a/b'' ''b'' (Some ''b'') (Some ''/ws/tests/M.elm'') False]
                    (Some ''/ws/tests/M.elm'')]
                 (Some ''/ws/tests/M.elm'')] None) r_deep2 =
       Inr (Suite ''root'' ''root'' None
              [Suite ''root/M'' ''M'' (Some ''M'')
                 [Suite ''root/M/a'' ''a'' (Some ''a'')
                    [Test ''root/M/a/b'' ''b'' (Some ''b'') (Some ''/ws/tests/M.elm'') False,
                     Test ''root/M/a/c'' ''c'' (Some ''c'') (Some ''/ws/tests/M.elm'') False]
                    (Some ''/ws/tests/M.elm'')]
                 (Some ''/ws/tests/M.elm'')] None, ''root/M/a/c'')
   \<and> length (suites_at (Suite ''root'' ''root'' None
              [Suite ''root/M'' ''M'' (Some ''M'')
                 [Suite ''root/M/a'' ''a'' (Some ''a'')
                    [Test ''root/M/a/b'' ''b'' (Some ''b'') (Some ''/ws/tests/M.elm'') False,
                     Test ''root/M/a/c'' ''c'' (Some ''c'') (Some ''/ws/tests/M.elm'') False]
                    (Some ''/ws/tests/M.elm'')]
                 (Some ''/ws/tests/M.elm'')] None) [''M'', ''a'']) = 1"
proof -
  let ?st = "run_ops example_parser [RunAll] (new_runner ''/ws'')"
  let ?t = "Suite ''root'' ''root'' None [] None"
  let ?s1 = "Suite ''root'' ''root'' None
              [Suite ''root/M'' ''M'' (Some ''M'')
                 [Suite ''root/M/a'' ''a'' (Some ''a'')
                    [Test ''root/M/a/b'' ''b'' (Some ''b'') (Some ''/ws/tests/M.elm'') False]
                    (Some ''/ws/tests/M.elm'')]
                 (Some ''/ws/tests/M.elm'')] None"
  let ?s2 = "Suite ''root'' ''root'' None
              [Suite ''root/M'' ''M'' (Some ''M'')
                 [Suite ''root/M/a'' ''a'' (Some ''a'')
                    [Test ''root/M/a/b'' ''b'' (Some ''b'') (Some ''/ws/tests/M.elm'') False,
                     Test ''root/M/a/c'' ''c'' (Some ''c'') (Some ''/ws/tests/M.elm'') False]
                    (Some ''/ws/tests/M.elm'')]
                 (Some ''/ws/tests/M.elm'')] None"
  have st: "?st = \<lparr>folder = ''/ws'', loadedSuite = None, resultById = Map.empty,
      loadingSuite = Some ?t, pendingMessages = []\<rparr>"
    by (simp add: runAllTests_def new_runner_def root_suite_def)
  have h2: "loadingSuite ?st = Some ?t" unfolding st by simp
  have fo: "folder ?st = ''/ws''" unfolding st by simp
  have e1: "addResult ''/ws'' ?t r_deep1 = Inr (?s1, ''root/M/a/b'')"
    by (simp add: addResult_def getFilePath_def r_deep1_def)
  have e2: "addResult ''/ws'' ?s1 r_deep2 = Inr (?s2, ''root/M/a/c'')"
    by (simp add: addResult_def getFilePath_def r_deep2_def)
  have h3: "labels r_deep1 = [''M'', ''a''] @ [''b'']" by (simp add: r_deep1_def)
  have h4: "labels r_deep2 = [''M'', ''a''] @ [''c'']" by (simp add: r_deep2_def)
  have h7: "\<not> shadowed ?t [''M'', ''a'']" by simp
  have h8: "prefix [''M'', ''a''] [''M'', ''a'']" by simp
  from shared_prefix_suites_reused [OF refl h2 h3 h4 _ _ h7 h8]
  obtain s1 t1 s2 t2 where
    o1: "addResult ''/ws'' ?t r_deep1 = Inr (s1, t1)" and
    o2: "addResult ''/ws'' s1 r_deep2 = Inr (s2, t2)" and
    o3: "length (suites_at s2 [''M'', ''a'']) = 1"
    unfolding fo by auto
  from o1 have s1: "s1 = ?s1" unfolding e1 by auto
  from o2 have s2: "s2 = ?s2" unfolding s1 e2 by auto
  from o3 e1 e2 h2 show ?thesis unfolding s2 by simp
qed

text \<open>
  C3, counterexample: the loading tree holds the test \<open>a\<close> of module \<open>M\<close>. The results with
  labels \<open>M, a, b\<close> and \<open>M, a, c\<close> share the prefix \<open>M, a\<close>; the first insertion makes a suite
  \<open>a\<close> beside the test, the second finds the test again and makes another: two suites with
  the id \<open>root/M/a\<close>.
\<close>

theorem shadowing_test_duplicates_suite:
  "addResult ''/ws'' (Suite ''root'' ''root'' None [] None) r_leaf =
     Inr (Suite ''root'' ''root'' None
            [Suite ''root/M'' ''M'' (Some ''M'')
               [Test ''root/M/a'' ''a'' (Some ''a'') (Some ''/ws/tests/M.elm'') False]
               (Some ''/ws/tests/M.elm'')] None, ''root/M/a'')
   \<and> (case addResult ''/ws'' (Suite ''root'' ''root'' None
            [Suite ''root/M'' ''M'' (Some ''M'')
               [Test ''root/M/a'' ''a'' (Some ''a'') (Some ''/ws/tests/M.elm'') False]
               (Some ''/ws/tests/M.elm'')] None) r_deep1 of
         Inl e \<Rightarrow> False
       | Inr (s1, t1) \<Rightarrow>
           (case addResult ''/ws'' s1 r_deep2 of
              Inl e \<Rightarrow> False
            | Inr (s2, t2) \<Rightarrow>
                length (suites_at s1 [''M'', ''a'']) = 1 \<and> length (suites_at s2 [''M'', ''a'']) = 2
                \<and> s2 = Suite ''root'' ''root'' None
                    [Suite ''root/M'' ''M'' (Some ''M'')
                       [Test ''root/M/a'' ''a'' (Some ''a'') (Some ''/ws/tests/M.elm'') False,
                        Suite ''root/M/a'' ''a'' (Some ''a'')
                          [Test ''root/M/a/b'' ''b'' (Some ''b'') (Some ''/ws/tests/M.elm'') False]
                          (Some ''/ws/tests/M.elm''),
                        Suite ''root/M/a'' ''a'' (Some ''a'')
                          [Test ''root/M/a/c'' ''c'' (Some ''c'') (Some ''/ws/tests/M.elm'') False]
                          (Some ''/ws/tests/M.elm'')]
                       (Some ''/ws/tests/M.elm'')] None))"
  by (simp add: addResult_def getFilePath_def r_leaf_def r_deep1_def r_deep2_def suites_at_def)

text \<open>
  C4. In every state that a new runner reaches, the loading and the loaded tree have the id
  \<open>root\<close>, every child's id is its parent's id, a \<open>/\<close> and its label, every node of the tree
  lies at a label path, and the id of a node at the path \<open>p\<close> is \<open>root\<close> with the labels of \<open>p\<close>
  joined by \<open>/\<close>. An insertion into the loading tree returns the path-joined id of the
  labels, and the new tree has at that path the nodes it had and one more: the \<^verbatim>\<open>Test\<close> with
  the returned id.
\<close>

theorem node_ids_path_joined:
  assumes "st = run_ops ptr xs (new_runner fsPath)"
    and "Some t \<in> {loadingSuite st, loadedSuite st}"
  shows "node_id t = ''root'' \<and> ids_ok t
    \<and> (n \<in> set (subnodes t) \<longrightarrow> (\<exists>p. n \<in> set (nodes_at t p)))
    \<and> (n \<in> set (nodes_at t p) \<longrightarrow> node_id n = path_id ''root'' p)
    \<and> (loadingSuite st = Some t \<and> addResult (folder st) t r = Inr (t', tid) \<longrightarrow>
         tid = path_id ''root'' (labels r)
         \<and> (\<exists>A B f. nodes_at t (labels r) = A @ B
              \<and> nodes_at t' (labels r) =
                    A @ [Test tid (last (labels r)) (Some (last (labels r))) (Some f)
                           (status r = ''todo'')] @ B))"
proof -
  from run_ops_trees_ok[of ptr xs fsPath] assms
  have root: "node_id t = ''root''" and ok: "ids_ok t"
    unfolding trees_ok_def by blast+
  have a: "n \<in> set (subnodes t) \<longrightarrow> (\<exists>p. n \<in> set (nodes_at t p))"
    using subnodes_nodes_at by blast
  have b: "n \<in> set (nodes_at t p) \<longrightarrow> node_id n = path_id ''root'' p"
    using nodes_at_ids[OF ok, of n p] root by simp
  have c: "tid = path_id ''root'' (labels r)
         \<and> (\<exists>A B f. nodes_at t (labels r) = A @ B
              \<and> nodes_at t' (labels r) =
                    A @ [Test tid (last (labels r)) (Some (last (labels r))) (Some f)
                           (status r = ''todo'')] @ B)"
    if "addResult (folder st) t r = Inr (t', tid)"
  proof -
    from that have add: "addResult' (folder st) t (labels r) r = Inr (t', tid)"
      by (simp add: addResult_def)
    from addResult'_tid[OF add ok] root have "tid = path_id ''root'' (labels r)" by simp
    moreover from addResult'_new_node[OF add] obtain A B f where
      "nodes_at t (labels r) = A @ B"
      "nodes_at t' (labels r) =
         A @ [Test tid (last (labels r)) (Some (last (labels r))) (Some f)
                (status r = ''todo'')] @ B"
      by blast
    ultimately show ?thesis by blast
  qed
  from root ok a b c show ?thesis by blast
qed

text \<open>
  C4, witness: after a full run that reports \<open>Mod.case1\<close>, the test node lies at the path
  \<open>Mod, case1\<close> with the id \<open>root/Mod/case1\<close>; inserting \<open>Mod.case2\<close> returns
  \<open>root/Mod/case2\<close>.
\<close>

theorem node_ids_path_joined_witness:
  "loadingSuite (run_ops example_parser [RunAll, StdoutData ''T''] (new_runner ''/ws'')) =
     Some (Suite ''root'' ''root'' None
            [Suite ''root/Mod'' ''Mod'' (Some ''Mod'')
               [Test ''root/Mod/case1'' ''case1'' (Some ''case1'') (Some ''/ws/tests/Mod.elm'') False]
               (Some ''/ws/tests/Mod.elm'')] None)
   \<and> Test ''root/Mod/case1'' ''case1'' (Some ''case1'') (Some ''/ws/tests/Mod.elm'') False
       \<in> set (nodes_at (Suite ''root'' ''root'' None
            [Suite ''root/Mod'' ''Mod'' (Some ''Mod'')
               [Test ''root/Mod/case1'' ''case1'' (Some ''case1'') (Some ''/ws/tests/Mod.elm'') False]
               (Some ''/ws/tests/Mod.elm'')] None) [''Mod'', ''case1''])
   \<and> path_id ''root'' [''Mod'', ''case1''] = ''root/Mod/case1''
   \<and> addResult ''/ws'' (Suite ''root'' ''root'' None
            [Suite ''root/Mod'' ''Mod'' (Some ''Mod'')
               [Test ''root/Mod/case1'' ''case1'' (Some ''case1'') (Some ''/ws/tests/Mod.elm'') False]
               (Some ''/ws/tests/Mod.elm'')] None) r_todo =
     Inr (Suite ''root'' ''root'' None
            [Suite ''root/Mod'' ''Mod'' (Some ''Mod'')
               [Test ''root/Mod/case1'' ''case1'' (Some ''case1'') (Some ''/ws/tests/Mod.elm'') False,
                Test ''root/Mod/case2'' ''case2'' (Some ''case2'') (Some ''/ws/tests/Mod.elm'') True]
               (Some ''/ws/tests/Mod.elm'')] None, ''root/Mod/case2'')
   \<and> path_id ''root'' (labels r_todo) = ''root/Mod/case2''"
proof -
  let ?st = "run_ops example_parser [RunAll, StdoutData ''T''] (new_runner ''/ws'')"
  let ?t = "Suite ''root'' ''root'' None
            [Suite ''root/Mod'' ''Mod'' (Some ''Mod'')
               [Test ''root/Mod/case1'' ''case1'' (Some ''case1'') (Some ''/ws/tests/Mod.elm'') False]
               (Some ''/ws/tests/Mod.elm'')] None"
  let ?t' = "Suite ''root'' ''root'' None
            [Suite ''root/Mod'' ''Mod'' (Some ''Mod'')
               [Test ''root/Mod/case1'' ''case1'' (Some ''case1'') (Some ''/ws/tests/Mod.elm'') False,
                Test ''root/Mod/case2'' ''case2'' (Some ''case2'') (Some ''/ws/tests/Mod.elm'') True]
               (Some ''/ws/tests/Mod.elm'')] None"
  let ?n = "Test ''root/Mod/case1'' ''case1'' (Some ''case1'') (Some ''/ws/tests/Mod.elm'') False"
  have st: "?st = \<lparr>folder = ''/ws'', loadedSuite = None,
      resultById = [''root/Mod/case1'' \<mapsto> r_pass], loadingSuite = Some ?t,
      pendingMessages = []\<rparr>"
    by (simp add: runAllTests_def new_runner_def on_stdout_data_def parse_def dispatch_def
        accept_def popMessages_def addResult_def getFilePath_def root_suite_def
        r_pass_def example_parser_def Let_def)
  have h2: "Some ?t \<in> {loadingSuite ?st, loadedSuite ?st}" unfolding st by simp
  have n: "?n \<in> set (nodes_at ?t [''Mod'', ''case1''])" by simp
  have add: "addResult (folder ?st) ?t r_todo = Inr (?t', ''root/Mod/case2'')"
    unfolding st by (simp add: addResult_def getFilePath_def r_todo_def)
  from node_ids_path_joined [OF refl h2, of ?n "[''Mod'', ''case1'']" r_todo ?t' "''root/Mod/case2''"]
    n add
  have "node_id ?n = path_id ''root'' [''Mod'', ''case1'']"
    and "''root/Mod/case2'' = path_id ''root'' (labels r_todo)"
    unfolding st by simp_all
  with n add show ?thesis unfolding st by (simp add: path_id_def)
qed

text \<open>
  C5. When the task of the build invocation ends with exit code 1, the run is rejected
  with a reason that contains \<open>elm-test failed.\<close>, and the report-mode invocation is not
  started; with any other exit code, or none, the report-mode invocation is started.
\<close>

theorem build_exit_code:
  "onDidEndTaskProcess True (Some 1) = Reject reject_reason
   \<and> sublist ''elm-test failed.'' reject_reason
   \<and> (exitCode \<noteq> Some 1 \<longrightarrow> onDidEndTaskProcess True exitCode = RunElmTestWithReport)"
proof -
  have "reject_reason = [] @ ''elm-test failed.'' @ drop 16 reject_reason"
    by (simp add: reject_reason_def)
  then have "sublist ''elm-test failed.'' reject_reason"
    unfolding sublist_def by blast
  then show ?thesis by (simp add: onDidEndTaskProcess_def)
qed

text \<open>C5, witness: exit code 0 and a missing exit code start the report-mode invocation.\<close>

theorem build_exit_code_witness:
  "Some (0::int) \<noteq> Some 1 \<and> onDidEndTaskProcess True (Some 0) = RunElmTestWithReport
   \<and> onDidEndTaskProcess True None = RunElmTestWithReport
   \<and> onDidEndTaskProcess True (Some 1) \<noteq> RunElmTestWithReport"
  using build_exit_code [of "Some 0"] build_exit_code [of None] by simp

text \<open>
  C6. When the report-mode process closes and no tree is loaded, the loading tree becomes
  the loaded tree; when a tree is loaded, the state is unchanged and the loading tree is not
  used; both times the run resolves with the loaded tree. A full run, whatever its output,
  closes with no tree loaded and a loading tree present, so its tree is promoted.
\<close>

theorem close_promotes:
  "(loadedSuite st = None \<longrightarrow>
      on_close st = (st\<lparr>loadedSuite := loadingSuite st\<rparr>, TestLoadFinishedEvent (loadingSuite st)))
   \<and> (loadedSuite st \<noteq> None \<longrightarrow>
      on_close st = (st, TestLoadFinishedEvent (loadedSuite st)))
   \<and> (let st1 = run_ops ptr (RunAll # map StdoutData chunks) st0
      in loadingSuite st1 \<noteq> None \<and>
         on_close st1 = (st1\<lparr>loadedSuite := loadingSuite st1\<rparr>,
                         TestLoadFinishedEvent (loadingSuite st1)))"
proof -
  have "loadedSuite (run_ops ptr (RunAll # map StdoutData chunks) st0) = None"
    by (simp add: stdout_stream_loadedSuite runAllTests_def)
  moreover have "loadingSuite (run_ops ptr (RunAll # map StdoutData chunks) st0) \<noteq> None"
    by (simp add: stdout_stream_loadingSuite runAllTests_def)
  ultimately show ?thesis by (simp add: on_close_def Let_def)
qed

text \<open>
  C6, witness: a runner that starts a partial run with no tree loaded promotes the loading
  tree at the close; one that has a tree loaded keeps it.
\<close>

theorem close_promotes_witness:
  "loadedSuite (runSomeTests [] (new_runner ''/ws'')) = None
   \<and> snd (on_close (runSomeTests [] (new_runner ''/ws''))) = TestLoadFinishedEvent (Some root_suite)
   \<and> loadedSuite ((new_runner ''/ws'')\<lparr>loadedSuite := Some (Suite ''root'' ''root'' None [] None),
         loadingSuite := None\<rparr>) \<noteq> None
   \<and> snd (on_close ((new_runner ''/ws'')\<lparr>loadedSuite := Some (Suite ''root'' ''root'' None [] None),
         loadingSuite := None\<rparr>))
       = TestLoadFinishedEvent (Some (Suite ''root'' ''root'' None [] None))"
  using close_promotes [of "runSomeTests [] (new_runner ''/ws'')"]
    close_promotes [of "(new_runner ''/ws'')\<lparr>loadedSuite := Some (Suite ''root'' ''root'' None [] None),
         loadingSuite := None\<rparr>"]
  by (simp add: runSomeTests_def new_runner_def)



text \<open>
  C8, the code at a module label with two dots: only the first dot becomes a separator, so
  the file of module \<open>A.B.C\<close> is \<open>/ws/tests/A/B.C.elm\<close> and not \<open>/ws/tests/A/B/C.elm\<close>.
\<close>

theorem getFilePath_nested_module:
  "getFilePath ''/ws'' \<lparr>event = ''testCompleted'', status = ''pass'', labels = [''A.B.C'', ''t''],
     messages = [], failures = []\<rparr> = Inr ''/ws/tests/A/B.C.elm''"
  by (simp add: getFilePath_def)

text \<open>
  C10. \<^verbatim>\<open>pushMessage\<close> leaves the state as it is for the empty string. In every state that a
  new runner reaches through runs, chunks of output and closes, with any parser, the
  pending-message buffer holds no empty string and no stored result has an empty string
  among its messages.
\<close>

theorem empty_diagnostic_discarded:
  "pushMessage [] st = st
   \<and> [] \<notin> set (pendingMessages (run_ops ptr xs (new_runner fsPath)))
   \<and> (resultById (run_ops ptr xs (new_runner fsPath)) k = Some r \<longrightarrow> [] \<notin> set (messages r))"
proof -
  have "messages_nonempty (new_runner fsPath)"
    by (simp add: messages_nonempty_def new_runner_def)
  then have "messages_nonempty (run_ops ptr xs (new_runner fsPath))"
    by (rule run_ops_messages_nonempty)
  then show ?thesis by (simp add: messages_nonempty_def pushMessage_def)
qed

text \<open>
  C10, witness: the chunk holds a diagnostic line, an empty line and a completed test; the
  stored result carries the diagnostic line alone.
\<close>

theorem empty_diagnostic_discarded_witness:
  "resultById (run_ops example_parser [RunAll, StdoutData (''log'' @ [CHR 0x0A, CHR 0x0A] @ ''T'')]
      (new_runner ''/ws'')) ''root/Mod/case1'' = Some (r_pass\<lparr>messages := [''log'']\<rparr>)
   \<and> [] \<notin> set (messages (r_pass\<lparr>messages := [''log'']\<rparr>))"
proof -
  have run: "resultById (run_ops example_parser [RunAll, StdoutData (''log'' @ [CHR 0x0A, CHR 0x0A] @ ''T'')]
      (new_runner ''/ws'')) ''root/Mod/case1'' = Some (r_pass\<lparr>messages := [''log'']\<rparr>)"
    by (simp add: runAllTests_def new_runner_def on_stdout_data_def parse_def dispatch_def
        accept_def popMessages_def pushMessage_def addResult_def getFilePath_def root_suite_def
        r_pass_def example_parser_def)
  with empty_diagnostic_discarded [of "new_runner ''/ws''" example_parser
      "[RunAll, StdoutData (''log'' @ [CHR 0x0A, CHR 0x0A] @ ''T'')]" "''/ws''"
      "''root/Mod/case1''" "r_pass\<lparr>messages := [''log'']\<rparr>"]
  show ?thesis by simp
qed

end
